theory Spec2Isabelle
  imports Main
begin

section \<open>Data model of the scheduler (packages/scheduler, task-queue.js)\<close>

text \<open>
  Task and TaskQueue objects live in a store and are named by references, because the
  queue's three lists are intrusive doubly-linked lists: the links are fields of the
  Task objects themselves, and several claims depend on the aliasing.
  \<open>None\<close> stands for JavaScript's \<open>undefined\<close> / \<open>null\<close>.
\<close>

type_synonym ref = nat
type_synonym qref = nat

datatype status = Pending | Running | Completed | Canceled

text \<open>
  A callback is opaque to the queue. The only callback the queue itself creates is its own
  bound \<open>requestFlush\<close> method (constructor: \<open>this.requestFlush = this.requestFlush.bind(this)\<close>).
\<close>

datatype callback = RequestFlush qref | User nat

record Task =
  taskQueue :: qref
  createdTime :: int
  queueTime :: int
  preempt :: bool
  persistent :: bool
  suspend :: bool
  reusable :: bool
  callback :: callback
  status :: status
  prev_t :: "ref option"
  next_t :: "ref option"

record TaskQueue =
  priority :: int
  scheduler :: qref
  processingSize :: int
  processingHead :: "ref option"
  processingTail :: "ref option"
  suspenderTask :: "ref option"
  pendingAsyncCount :: int
  pendingSize :: int
  pendingHead :: "ref option"
  pendingTail :: "ref option"
  delayedSize :: int
  delayedHead :: "ref option"
  delayedTail :: "ref option"
  flushRequested :: bool
  yieldPromise :: "nat option"
  taskPool :: "nat \<Rightarrow> ref option"
  taskPoolSize :: int
  lastRequest :: int
  microTaskRequestFlushTask :: "ref option"
  flushRequestor :: nat

text \<open>
  Fields that stand for collaborators whose code is not part of task-queue.js:
  \<^item> \<open>scheduler\<close>: Modelled from the spec: the Scheduler forwards \<open>queueMacroTask\<close> to its
    macrotask queue; the field holds the reference of that queue.
  \<^item> \<open>flushRequestor\<close>: Modelled from the spec: the FlushRequestor asks the host to invoke
    \<open>flush\<close>; the field counts the requests the host still holds (\<open>request()\<close> adds one,
    \<open>cancel()\<close> retracts what is pending, the host firing a request consumes it).
  \<^item> \<open>taskPool\<close> is the JavaScript array, a map from index to element; reading an index never
    written gives \<open>undefined\<close>, writing one past the end extends the array.
\<close>

record world =
  now :: int
  tasks :: "ref \<Rightarrow> Task"
  nextTask :: ref
  queues :: "qref \<Rightarrow> TaskQueue"
  nextPromise :: nat
  resolved :: "nat list"

datatype error =
    PreemptWithDelay
  | PreemptWithPersistent
  | PersistentOnMicroTask
  | TakeNotPending
  | TaskNotFound
  | AsyncCompletionMismatch
  | RunNotPending
  | TypeError

text \<open>
  An operation either returns or throws; in both cases it leaves a store behind. A loop
  that follows links may run forever on a cyclic store: such operations have an
  \<open>option\<close> result, \<open>None\<close> meaning that the call does not return.
\<close>

datatype 'a outcome = Returned 'a world | Thrown error world

definition seq :: "'a outcome option \<Rightarrow> ('a \<Rightarrow> world \<Rightarrow> 'b outcome option) \<Rightarrow> 'b outcome option" where
  "seq m f = (case m of
       None \<Rightarrow> None
     | Some (Thrown e w) \<Rightarrow> Some (Thrown e w)
     | Some (Returned a w) \<Rightarrow> f a w)"

definition updQ :: "qref \<Rightarrow> (TaskQueue \<Rightarrow> TaskQueue) \<Rightarrow> world \<Rightarrow> world" where
  "updQ self f w = w\<lparr>queues := (queues w)(self := f (queues w self))\<rparr>"

definition updT :: "ref \<Rightarrow> (Task \<Rightarrow> Task) \<Rightarrow> world \<Rightarrow> world" where
  "updT t f w = w\<lparr>tasks := (tasks w)(t := f (tasks w t))\<rparr>"

section \<open>Options\<close>

record QueueTaskOptions =
  delay :: int
  opt_preempt :: bool
  opt_persistent :: bool
  opt_reusable :: bool
  opt_suspend :: bool

datatype opt = Delay int | Preempt bool | Persistent bool | Reusable bool | Suspend bool

text \<open>Modelled from the spec: \<open>defaultQueueTaskOptions\<close> (types.js is not part of the sources):
  delay 0, every flag false.\<close>

definition defaultQueueTaskOptions :: QueueTaskOptions where
  "defaultQueueTaskOptions =
     \<lparr>delay = 0, opt_preempt = False, opt_persistent = False, opt_reusable = False, opt_suspend = False\<rparr>"

fun applyOpt :: "opt \<Rightarrow> QueueTaskOptions \<Rightarrow> QueueTaskOptions" where
  "applyOpt (Delay d) o' = o'\<lparr>delay := d\<rparr>"
| "applyOpt (Preempt b) o' = o'\<lparr>opt_preempt := b\<rparr>"
| "applyOpt (Persistent b) o' = o'\<lparr>opt_persistent := b\<rparr>"
| "applyOpt (Reusable b) o' = o'\<lparr>opt_reusable := b\<rparr>"
| "applyOpt (Suspend b) o' = o'\<lparr>opt_suspend := b\<rparr>"

text \<open>\<open>{ ...defaultQueueTaskOptions, ...opts }\<close>: the caller's properties, in order, override the defaults.\<close>

definition mergeOptions :: "opt list \<Rightarrow> QueueTaskOptions" where
  "mergeOptions opts = fold applyOpt opts defaultQueueTaskOptions"

definition microTaskRequestFlushTaskOptions :: "opt list" where
  "microTaskRequestFlushTaskOptions =
     [Delay 0, Preempt True, Persistent False, Reusable True, Suspend False]"

section \<open>Linking and unlinking\<close>

definition finish :: "ref \<Rightarrow> world \<Rightarrow> world" where
  "finish task w =
     (let w1 = (case next_t (tasks w task) of
                  None \<Rightarrow> w
                | Some n \<Rightarrow> updT n (\<lambda>x. x\<lparr>prev_t := prev_t (tasks w task)\<rparr>) w);
          w2 = (case prev_t (tasks w1 task) of
                  None \<Rightarrow> w1
                | Some p \<Rightarrow> updT p (\<lambda>x. x\<lparr>next_t := next_t (tasks w1 task)\<rparr>) w1)
      in w2)"

definition removeFromProcessing :: "qref \<Rightarrow> ref \<Rightarrow> world \<Rightarrow> world" where
  "removeFromProcessing self task w =
     (let w1 = (if processingHead (queues w self) = Some task
                then updQ self (\<lambda>q. q\<lparr>processingHead := next_t (tasks w task)\<rparr>) w else w);
          w2 = (if processingTail (queues w1 self) = Some task
                then updQ self (\<lambda>q. q\<lparr>processingTail := prev_t (tasks w1 task)\<rparr>) w1 else w1);
          w3 = updQ self (\<lambda>q. q\<lparr>processingSize := processingSize q - 1\<rparr>) w2
      in finish task w3)"

definition removeFromPending :: "qref \<Rightarrow> ref \<Rightarrow> world \<Rightarrow> world" where
  "removeFromPending self task w =
     (let w1 = (if pendingHead (queues w self) = Some task
                then updQ self (\<lambda>q. q\<lparr>pendingHead := next_t (tasks w task)\<rparr>) w else w);
          w2 = (if pendingTail (queues w1 self) = Some task
                then updQ self (\<lambda>q. q\<lparr>pendingTail := prev_t (tasks w1 task)\<rparr>) w1 else w1);
          w3 = updQ self (\<lambda>q. q\<lparr>pendingSize := pendingSize q - 1\<rparr>) w2
      in finish task w3)"

definition removeFromDelayed :: "qref \<Rightarrow> ref \<Rightarrow> world \<Rightarrow> world" where
  "removeFromDelayed self task w =
     (let w1 = (if delayedHead (queues w self) = Some task
                then updQ self (\<lambda>q. q\<lparr>delayedHead := next_t (tasks w task)\<rparr>) w else w);
          w2 = (if delayedTail (queues w1 self) = Some task
                then updQ self (\<lambda>q. q\<lparr>delayedTail := prev_t (tasks w1 task)\<rparr>) w1 else w1);
          w3 = updQ self (\<lambda>q. q\<lparr>delayedSize := delayedSize q - 1\<rparr>) w2
      in finish task w3)"

text \<open>
  \<open>if (this.processingSize++ === 0) { head = tail = task } else
  { this.processingTail = (task.prev = this.processingTail).next = task }\<close>:
  the size is incremented first; in the second branch \<open>task.prev\<close> is assigned before the
  old tail is dereferenced, so a missing tail throws a TypeError after both writes.
\<close>

definition addToProcessing :: "qref \<Rightarrow> ref \<Rightarrow> world \<Rightarrow> unit outcome" where
  "addToProcessing self task w =
     (let w1 = updQ self (\<lambda>q. q\<lparr>processingSize := processingSize q + 1\<rparr>) w in
      if processingSize (queues w self) = 0
      then Returned () (updQ self (\<lambda>q. q\<lparr>processingHead := Some task, processingTail := Some task\<rparr>) w1)
      else
        (let w2 = updT task (\<lambda>x. x\<lparr>prev_t := processingTail (queues w1 self)\<rparr>) w1 in
         case processingTail (queues w1 self) of
           None \<Rightarrow> Thrown TypeError w2
         | Some old \<Rightarrow>
             Returned () (updQ self (\<lambda>q. q\<lparr>processingTail := Some task\<rparr>)
                            (updT old (\<lambda>x. x\<lparr>next_t := Some task\<rparr>) w2))))"

definition addToPending :: "qref \<Rightarrow> ref \<Rightarrow> world \<Rightarrow> unit outcome" where
  "addToPending self task w =
     (let w1 = updQ self (\<lambda>q. q\<lparr>pendingSize := pendingSize q + 1\<rparr>) w in
      if pendingSize (queues w self) = 0
      then Returned () (updQ self (\<lambda>q. q\<lparr>pendingHead := Some task, pendingTail := Some task\<rparr>) w1)
      else
        (let w2 = updT task (\<lambda>x. x\<lparr>prev_t := pendingTail (queues w1 self)\<rparr>) w1 in
         case pendingTail (queues w1 self) of
           None \<Rightarrow> Thrown TypeError w2
         | Some old \<Rightarrow>
             Returned () (updQ self (\<lambda>q. q\<lparr>pendingTail := Some task\<rparr>)
                            (updT old (\<lambda>x. x\<lparr>next_t := Some task\<rparr>) w2))))"

definition addToDelayed :: "qref \<Rightarrow> ref \<Rightarrow> world \<Rightarrow> unit outcome" where
  "addToDelayed self task w =
     (let w1 = updQ self (\<lambda>q. q\<lparr>delayedSize := delayedSize q + 1\<rparr>) w in
      if delayedSize (queues w self) = 0
      then Returned () (updQ self (\<lambda>q. q\<lparr>delayedHead := Some task, delayedTail := Some task\<rparr>) w1)
      else
        (let w2 = updT task (\<lambda>x. x\<lparr>prev_t := delayedTail (queues w1 self)\<rparr>) w1 in
         case delayedTail (queues w1 self) of
           None \<Rightarrow> Thrown TypeError w2
         | Some old \<Rightarrow>
             Returned () (updQ self (\<lambda>q. q\<lparr>delayedTail := Some task\<rparr>)
                            (updT old (\<lambda>x. x\<lparr>next_t := Some task\<rparr>) w2))))"

section \<open>remove\<close>

text \<open>\<open>while (cur !== void 0) { if (cur === task) { ...; return; } cur = cur.next; }\<close>\<close>

partial_function (option) findTask :: "(ref \<Rightarrow> Task) \<Rightarrow> ref option \<Rightarrow> ref \<Rightarrow> bool option" where
  "findTask h cur task =
     (case cur of
        None \<Rightarrow> Some False
      | Some c \<Rightarrow> if c = task then Some True else findTask h (next_t (h c)) task)"

declare findTask.simps [code]

definition remove :: "qref \<Rightarrow> ref \<Rightarrow> world \<Rightarrow> unit outcome option" where
  "remove self task w =
     (if preempt (tasks w task) then Some (Returned () (removeFromProcessing self task w))
      else if queueTime (tasks w task) > now w then Some (Returned () (removeFromDelayed self task w))
      else
        (case findTask (tasks w) (processingHead (queues w self)) task of
           None \<Rightarrow> None
         | Some True \<Rightarrow> Some (Returned () (removeFromProcessing self task w))
         | Some False \<Rightarrow>
        (case findTask (tasks w) (pendingHead (queues w self)) task of
           None \<Rightarrow> None
         | Some True \<Rightarrow> Some (Returned () (removeFromPending self task w))
         | Some False \<Rightarrow>
        (case findTask (tasks w) (delayedHead (queues w self)) task of
           None \<Rightarrow> None
         | Some True \<Rightarrow> Some (Returned () (removeFromDelayed self task w))
         | Some False \<Rightarrow> Some (Thrown TaskNotFound w)))))"

section \<open>Task methods used by the queue\<close>

text \<open>Modelled from the spec: the Task constructor (task.js is not part of the sources).
  A new task is pending and not linked.\<close>

definition Task_new ::
  "qref \<Rightarrow> int \<Rightarrow> int \<Rightarrow> bool \<Rightarrow> bool \<Rightarrow> bool \<Rightarrow> bool \<Rightarrow> callback \<Rightarrow> world \<Rightarrow> ref \<times> world" where
  "Task_new q created queued pre pers susp reus cb w =
     (nextTask w,
      w\<lparr>tasks := (tasks w)(nextTask w :=
            \<lparr>taskQueue = q, createdTime = created, queueTime = queued, preempt = pre,
             persistent = pers, suspend = susp, reusable = reus, callback = cb,
             status = Pending, prev_t = None, next_t = None\<rparr>),
        nextTask := nextTask w + 1\<rparr>)"

text \<open>Modelled from the spec: \<open>Task.reuse(time, delay, preempt, persistent, suspend, callback)\<close>
  "reinitializes all fields ... returns it to pending".\<close>

definition Task_reuse :: "ref \<Rightarrow> int \<Rightarrow> int \<Rightarrow> bool \<Rightarrow> bool \<Rightarrow> bool \<Rightarrow> callback \<Rightarrow> world \<Rightarrow> world" where
  "Task_reuse t time d pre pers susp cb w =
     updT t (\<lambda>x. x\<lparr>createdTime := time, queueTime := time + d, preempt := pre,
                    persistent := pers, suspend := susp, callback := cb,
                    status := Pending, prev_t := None, next_t := None\<rparr>) w"

text \<open>Modelled from the spec: \<open>Task.reset(time)\<close> "recomputes queueTime from the current time
  plus the original delay, returns to pending".\<close>

definition Task_reset :: "ref \<Rightarrow> int \<Rightarrow> world \<Rightarrow> world" where
  "Task_reset t time w =
     updT t (\<lambda>x. x\<lparr>createdTime := time, queueTime := time + (queueTime x - createdTime x),
                    status := Pending\<rparr>) w"

text \<open>Modelled from the spec: \<open>Task.cancel()\<close> "valid from pending or running; idempotent no-op
  if already completed/canceled. Removes the task from its current list (if linked) and
  marks it canceled." A pending task is linked in a list of its owning queue; a running
  task has been unlinked by \<open>run\<close>.\<close>

definition Task_cancel :: "ref \<Rightarrow> world \<Rightarrow> unit outcome option" where
  "Task_cancel t w =
     (if status (tasks w t) = Pending then
        seq (remove (taskQueue (tasks w t)) t w)
            (\<lambda>_ w1. Some (Returned () (updT t (\<lambda>x. x\<lparr>status := Canceled\<rparr>) w1)))
      else if status (tasks w t) = Running then
        Some (Returned () (updT t (\<lambda>x. x\<lparr>status := Canceled\<rparr>) w))
      else Some (Returned () w))"

section \<open>Flush requests\<close>

text \<open>\<open>if (this.microTaskRequestFlushTask !== null) { this.microTaskRequestFlushTask.cancel();
  this.microTaskRequestFlushTask = null; }\<close>, shared by \<open>flush\<close>, \<open>cancel\<close> and \<open>requestFlush\<close>.\<close>

definition cancelMicroTaskRequestFlushTask :: "qref \<Rightarrow> world \<Rightarrow> unit outcome option" where
  "cancelMicroTaskRequestFlushTask self w =
     (case microTaskRequestFlushTask (queues w self) of
        None \<Rightarrow> Some (Returned () w)
      | Some p \<Rightarrow>
          seq (Task_cancel p w)
              (\<lambda>_ w1. Some (Returned () (updQ self (\<lambda>q. q\<lparr>microTaskRequestFlushTask := None\<rparr>) w1))))"

definition cancel :: "qref \<Rightarrow> world \<Rightarrow> unit outcome option" where
  "cancel self w =
     seq (cancelMicroTaskRequestFlushTask self w)
         (\<lambda>_ w1. Some (Returned ()
            (if flushRequested (queues w1 self)
             then updQ self (\<lambda>q. q\<lparr>flushRequestor := 0, flushRequested := False\<rparr>) w1
             else w1)))"

definition requestFlush :: "qref \<Rightarrow> world \<Rightarrow> unit outcome option" where
  "requestFlush self w =
     seq (cancelMicroTaskRequestFlushTask self w)
         (\<lambda>_ w1. Some (Returned ()
            (if \<not> flushRequested (queues w1 self)
             then updQ self (\<lambda>q. q\<lparr>flushRequested := True, lastRequest := now w1,
                                    flushRequestor := flushRequestor q + 1\<rparr>) w1
             else w1)))"

section \<open>queueTask\<close>

definition queueTask :: "callback \<Rightarrow> opt list \<Rightarrow> qref \<Rightarrow> world \<Rightarrow> ref outcome option" where
  "queueTask cb opts self w =
     (let m = mergeOptions opts in
      if opt_preempt m \<and> delay m > 0 then Some (Thrown PreemptWithDelay w)
      else if opt_preempt m \<and> opt_persistent m then Some (Thrown PreemptWithPersistent w)
      else if opt_persistent m \<and> priority (queues w self) = 0 then Some (Thrown PersistentOnMicroTask w)
      else
        seq (if processingSize (queues w self) = 0 then requestFlush self w else Some (Returned () w))
        (\<lambda>_ w1.
          let time = now w1;
              index = taskPoolSize (queues w1 self) - 1
          in
          seq (if opt_reusable m \<and> index \<ge> 0 then
                 (let w2 = updQ self (\<lambda>q. q\<lparr>taskPool := (taskPool q)(nat index := None),
                                               taskPoolSize := index\<rparr>) w1 in
                  case taskPool (queues w1 self) (nat index) of
                    None \<Rightarrow> Some (Thrown TypeError w2)
                  | Some task \<Rightarrow>
                      Some (Returned task
                        (Task_reuse task time (delay m) (opt_preempt m) (opt_persistent m)
                           (opt_suspend m) cb w2)))
               else
                 (case Task_new self time (time + delay m) (opt_preempt m) (opt_persistent m)
                         (opt_suspend m) (opt_reusable m) cb w1 of
                    (task, w2) \<Rightarrow> Some (Returned task w2)))
          (\<lambda>task w3.
            case (if opt_preempt m then addToProcessing self task w3
                  else if delay m = 0 then addToPending self task w3
                  else addToDelayed self task w3) of
              Thrown e w4 \<Rightarrow> Some (Thrown e w4)
            | Returned _ w4 \<Rightarrow> Some (Returned task w4))))"

section \<open>Migration between the lists\<close>

definition movePendingToProcessing :: "qref \<Rightarrow> world \<Rightarrow> unit outcome" where
  "movePendingToProcessing self w =
     (let q = queues w self;
          clear = (\<lambda>q. q\<lparr>pendingHead := None, pendingTail := None, pendingSize := 0\<rparr>)
      in
      if processingSize q = 0 then
        Returned () (updQ self (\<lambda>q. clear (q\<lparr>processingHead := pendingHead q,
                                               processingTail := pendingTail q,
                                               processingSize := pendingSize q\<rparr>)) w)
      else
        (case processingTail q of
           None \<Rightarrow> Thrown TypeError w
         | Some old \<Rightarrow>
             Returned ()
               (updQ self (\<lambda>q. clear (q\<lparr>processingTail := pendingTail q,
                                          processingSize := processingSize q + pendingSize q\<rparr>))
                  (updT old (\<lambda>x. x\<lparr>next_t := pendingHead q\<rparr>) w))))"

text \<open>\<open>while (next !== void 0 && next.queueTime <= time) { delayedTail = next;
  next = delayedTail.next; ++count; }\<close>, returning the three locals.\<close>

partial_function (option) dueLoop ::
  "(ref \<Rightarrow> Task) \<Rightarrow> int \<Rightarrow> ref \<Rightarrow> ref option \<Rightarrow> int \<Rightarrow> (ref \<times> ref option \<times> int) option" where
  "dueLoop h time dTail nxt count =
     (case nxt of
        None \<Rightarrow> Some (dTail, nxt, count)
      | Some n \<Rightarrow>
          if queueTime (h n) \<le> time then dueLoop h time n (next_t (h n)) (count + 1)
          else Some (dTail, nxt, count))"

declare dueLoop.simps [code]

definition moveDelayedToProcessing :: "qref \<Rightarrow> world \<Rightarrow> unit outcome option" where
  "moveDelayedToProcessing self w =
     (let time = now w; q = queues w self in
      case delayedHead q of
        None \<Rightarrow> Some (Thrown TypeError w)
      | Some dHead \<Rightarrow>
          if queueTime (tasks w dHead) \<le> time then
            (case dueLoop (tasks w) time dHead (next_t (tasks w dHead)) 1 of
               None \<Rightarrow> None
             | Some (dTail, nxt, count) \<Rightarrow>
                 (let rest = (\<lambda>w1.
                        let w2 = updQ self (\<lambda>q. q\<lparr>delayedHead := nxt,
                                                     delayedSize := delayedSize q - count\<rparr>) w1
                        in if delayedSize (queues w2 self) = 0
                           then updQ self (\<lambda>q. q\<lparr>delayedTail := None\<rparr>) w2 else w2)
                  in
                  if processingSize q = 0 then
                    Some (Returned ()
                      (rest (updQ self (\<lambda>q. q\<lparr>processingHead := Some dHead,
                                                 processingTail := Some dTail,
                                                 processingSize := count\<rparr>) w)))
                  else
                    (case processingTail q of
                       None \<Rightarrow> Some (Thrown TypeError w)
                     | Some old \<Rightarrow>
                         Some (Returned ()
                           (rest (updQ self (\<lambda>q. q\<lparr>processingTail := Some dTail,
                                                      processingSize := processingSize q + count\<rparr>)
                                    (updT old (\<lambda>x. x\<lparr>next_t := Some dHead\<rparr>) w)))))))
          else Some (Returned () w))"

section \<open>Quiescence\<close>

definition isEmpty :: "qref \<Rightarrow> world \<Rightarrow> bool" where
  "isEmpty self w =
     (processingSize (queues w self) = 0 \<and> pendingSize (queues w self) = 0
      \<and> delayedSize (queues w self) = 0)"

text \<open>\<open>while (cur !== void 0) { if (!cur.persistent) return false; cur = cur.next; }\<close>;
  \<open>Some True\<close> when the loop falls through.\<close>

partial_function (option) allPersistent :: "(ref \<Rightarrow> Task) \<Rightarrow> ref option \<Rightarrow> bool option" where
  "allPersistent h cur =
     (case cur of
        None \<Rightarrow> Some True
      | Some c \<Rightarrow> if \<not> persistent (h c) then Some False else allPersistent h (next_t (h c)))"

declare allPersistent.simps [code]

definition hasNoMoreFiniteWork :: "qref \<Rightarrow> world \<Rightarrow> bool option" where
  "hasNoMoreFiniteWork self w =
     (if pendingAsyncCount (queues w self) > 0 then Some False
      else
        (case allPersistent (tasks w) (processingHead (queues w self)) of
           None \<Rightarrow> None
         | Some False \<Rightarrow> Some False
         | Some True \<Rightarrow>
        (case allPersistent (tasks w) (pendingHead (queues w self)) of
           None \<Rightarrow> None
         | Some False \<Rightarrow> Some False
         | Some True \<Rightarrow>
        (case allPersistent (tasks w) (delayedHead (queues w self)) of
           None \<Rightarrow> None
         | Some False \<Rightarrow> Some False
         | Some True \<Rightarrow> Some True))))"

text \<open>\<open>if (this.yieldPromise !== void 0 && this.hasNoMoreFiniteWork) { const p = this.yieldPromise;
  this.yieldPromise = void 0; p.resolve(); }\<close>, shared by \<open>flush\<close> and \<open>completeAsyncTask\<close>.
  Modelled from the spec: an exposed promise (types.js) is a waiter with an identity;
  \<open>resolve\<close> records it in \<open>resolved\<close>.\<close>

definition resolveYield :: "qref \<Rightarrow> world \<Rightarrow> unit outcome option" where
  "resolveYield self w =
     (case yieldPromise (queues w self) of
        None \<Rightarrow> Some (Returned () w)
      | Some p \<Rightarrow>
          (case hasNoMoreFiniteWork self w of
             None \<Rightarrow> None
           | Some False \<Rightarrow> Some (Returned () w)
           | Some True \<Rightarrow>
               Some (Returned ()
                 ((updQ self (\<lambda>q. q\<lparr>yieldPromise := None\<rparr>) w)\<lparr>resolved := resolved w @ [p]\<rparr>))))"

datatype yielded = Done | Awaits nat

text \<open>\<open>async yield()\<close>: the call either completes at once or awaits the queue's yield promise.\<close>

definition yield :: "qref \<Rightarrow> world \<Rightarrow> yielded \<times> world" where
  "yield self w =
     (if isEmpty self w then (Done, w)
      else
        (case yieldPromise (queues w self) of
           None \<Rightarrow>
             (Awaits (nextPromise w),
              (updQ self (\<lambda>q. q\<lparr>yieldPromise := Some (nextPromise w)\<rparr>) w)
                \<lparr>nextPromise := nextPromise w + 1\<rparr>)
         | Some p \<Rightarrow> (Awaits p, w)))"

section \<open>Pool, persistent tasks, async completion\<close>

definition returnToPool :: "qref \<Rightarrow> ref \<Rightarrow> world \<Rightarrow> world" where
  "returnToPool self task w =
     updQ self (\<lambda>q. q\<lparr>taskPool := (taskPool q)(nat (taskPoolSize q) := Some task),
                        taskPoolSize := taskPoolSize q + 1\<rparr>) w"

definition resetPersistentTask :: "qref \<Rightarrow> ref \<Rightarrow> world \<Rightarrow> unit outcome" where
  "resetPersistentTask self task w =
     (let w0 = Task_reset task (now w) w in
      if createdTime (tasks w0 task) = queueTime (tasks w0 task) then
        (let w1 = updQ self (\<lambda>q. q\<lparr>pendingSize := pendingSize q + 1\<rparr>) w0 in
         if pendingSize (queues w0 self) = 0 then
           Returned ()
             (updT task (\<lambda>x. x\<lparr>prev_t := None, next_t := None\<rparr>)
                (updQ self (\<lambda>q. q\<lparr>pendingHead := Some task, pendingTail := Some task\<rparr>) w1))
         else
           (let w2 = updT task (\<lambda>x. x\<lparr>prev_t := pendingTail (queues w1 self)\<rparr>) w1 in
            case pendingTail (queues w1 self) of
              None \<Rightarrow> Thrown TypeError w2
            | Some old \<Rightarrow>
                Returned ()
                  (updT task (\<lambda>x. x\<lparr>next_t := None\<rparr>)
                     (updQ self (\<lambda>q. q\<lparr>pendingTail := Some task\<rparr>)
                        (updT old (\<lambda>x. x\<lparr>next_t := Some task\<rparr>) w2)))))
      else
        (let w1 = updQ self (\<lambda>q. q\<lparr>delayedSize := delayedSize q + 1\<rparr>) w0 in
         if delayedSize (queues w0 self) = 0 then
           Returned ()
             (updT task (\<lambda>x. x\<lparr>prev_t := None, next_t := None\<rparr>)
                (updQ self (\<lambda>q. q\<lparr>delayedHead := Some task, delayedTail := Some task\<rparr>) w1))
         else
           (let w2 = updT task (\<lambda>x. x\<lparr>prev_t := delayedTail (queues w1 self)\<rparr>) w1 in
            case delayedTail (queues w1 self) of
              None \<Rightarrow> Thrown TypeError w2
            | Some old \<Rightarrow>
                Returned ()
                  (updT task (\<lambda>x. x\<lparr>next_t := None\<rparr>)
                     (updQ self (\<lambda>q. q\<lparr>delayedTail := Some task\<rparr>)
                        (updT old (\<lambda>x. x\<lparr>next_t := Some task\<rparr>) w2))))))"

definition completeAsyncTask :: "qref \<Rightarrow> ref \<Rightarrow> world \<Rightarrow> unit outcome option" where
  "completeAsyncTask self task w =
     seq (if suspend (tasks w task) then
            (if suspenderTask (queues w self) \<noteq> Some task then Some (Thrown AsyncCompletionMismatch w)
             else Some (Returned () (updQ self (\<lambda>q. q\<lparr>suspenderTask := None\<rparr>) w)))
          else Some (Returned ()
                 (updQ self (\<lambda>q. q\<lparr>pendingAsyncCount := pendingAsyncCount q - 1\<rparr>) w)))
     (\<lambda>_ w1. seq (resolveYield self w1)
     (\<lambda>_ w2. if isEmpty self w2 then cancel self w2 else Some (Returned () w2)))"

section \<open>Clamped flush requests\<close>

text \<open>Modelled from the spec: \<open>Scheduler.queueMacroTask\<close> "simply forwards to the right queue".\<close>

definition queueMacroTask :: "qref \<Rightarrow> callback \<Rightarrow> opt list \<Rightarrow> world \<Rightarrow> ref outcome option" where
  "queueMacroTask sched cb opts w = queueTask cb opts sched w"

definition requestFlushClamped :: "qref \<Rightarrow> world \<Rightarrow> unit outcome option" where
  "requestFlushClamped self w =
     (if priority (queues w self) \<le> 0 then
        seq (queueMacroTask (scheduler (queues w self)) (RequestFlush self)
               microTaskRequestFlushTaskOptions w)
            (\<lambda>task w1. Some (Returned ()
               (updQ self (\<lambda>q. q\<lparr>microTaskRequestFlushTask := Some task\<rparr>) w1)))
      else requestFlush self w)"

section \<open>flush\<close>

text \<open>
  \<open>Task.run\<close> is not part of task-queue.js and runs arbitrary callbacks, so \<open>flush\<close> takes
  it as the parameter \<open>run\<close>. Besides the store, \<open>flush\<close> reports the tasks on which it
  invoked \<open>run\<close>, in order (the JavaScript method returns nothing).

  The loop \<open>while (this.processingSize > 0) { cur = this.processingHead; cur.run(); ... }\<close>
  with its early return; the flag of the result says whether the early return was taken.
\<close>

partial_function (option) drain ::
  "(ref \<Rightarrow> world \<Rightarrow> unit outcome option) \<Rightarrow> qref \<Rightarrow> ref list \<Rightarrow> world
     \<Rightarrow> (ref list \<times> bool) outcome option" where
  "drain run self trace w =
     (if processingSize (queues w self) > 0 then
        (case processingHead (queues w self) of
           None \<Rightarrow> Some (Thrown TypeError w)
         | Some cur \<Rightarrow>
             (case run cur w of
                None \<Rightarrow> None
              | Some (Thrown e w1) \<Rightarrow> Some (Thrown e w1)
              | Some (Returned u w1) \<Rightarrow>
                  if status (tasks w1 cur) = Running then
                    if suspend (tasks w1 cur) then
                      (case requestFlushClamped self
                              (updQ self (\<lambda>q. q\<lparr>suspenderTask := Some cur\<rparr>) w1) of
                         None \<Rightarrow> None
                       | Some (Thrown e w2) \<Rightarrow> Some (Thrown e w2)
                       | Some (Returned u2 w2) \<Rightarrow> Some (Returned (trace @ [cur], True) w2))
                    else
                      drain run self (trace @ [cur])
                        (updQ self (\<lambda>q. q\<lparr>pendingAsyncCount := pendingAsyncCount q + 1\<rparr>) w1)
                  else drain run self (trace @ [cur]) w1))
      else Some (Returned (trace, False) w))"

declare drain.simps [code]

definition migrate :: "qref \<Rightarrow> world \<Rightarrow> unit outcome option" where
  "migrate self w =
     seq (if pendingSize (queues w self) > 0 then Some (movePendingToProcessing self w)
          else Some (Returned () w))
     (\<lambda>_ w1. if delayedSize (queues w1 self) > 0 then moveDelayedToProcessing self w1
              else Some (Returned () w1))"

definition flush ::
  "(ref \<Rightarrow> world \<Rightarrow> unit outcome option) \<Rightarrow> qref \<Rightarrow> world \<Rightarrow> ref list outcome option" where
  "flush run self w =
     seq (cancelMicroTaskRequestFlushTask self w)
     (\<lambda>_ w0.
       let w1 = updQ self (\<lambda>q. q\<lparr>flushRequested := False\<rparr>) w0 in
       if suspenderTask (queues w1 self) = None then
         seq (migrate self w1)
         (\<lambda>_ w2. seq (drain run self [] w2)
         (\<lambda>(trace, early) w3.
            if early then Some (Returned trace w3)
            else
              seq (migrate self w3)
              (\<lambda>_ w4. seq (if processingSize (queues w4 self) > 0 then requestFlush self w4
                            else if delayedSize (queues w4 self) > 0
                                    \<or> pendingAsyncCount (queues w4 self) > 0
                                 then requestFlushClamped self w4
                                 else Some (Returned () w4))
              (\<lambda>_ w5. seq (resolveYield self w5)
              (\<lambda>_ w6. Some (Returned trace w6))))))
       else
         seq (requestFlushClamped self w1) (\<lambda>_ w2. Some (Returned [] w2)))"

text \<open>The host fires a pending flush request: the request is consumed and \<open>flush\<close> runs.\<close>

definition fire ::
  "(ref \<Rightarrow> world \<Rightarrow> unit outcome option) \<Rightarrow> qref \<Rightarrow> world \<Rightarrow> ref list outcome option" where
  "fire run self w =
     flush run self (updQ self (\<lambda>q. q\<lparr>flushRequestor := flushRequestor q - 1\<rparr>) w)"

section \<open>take\<close>

definition take_task :: "qref \<Rightarrow> ref \<Rightarrow> world \<Rightarrow> unit outcome option" where
  "take_task self task w =
     (if status (tasks w task) \<noteq> Pending then Some (Thrown TakeNotPending w)
      else
        seq (if processingSize (queues w self) = 0 then requestFlush self w else Some (Returned () w))
        (\<lambda>_ w1. seq (remove (taskQueue (tasks w1 task)) task w1)
        (\<lambda>_ w2. Some (if preempt (tasks w2 task) then addToProcessing self task w2
                       else if queueTime (tasks w2 task) \<le> now w2 then addToPending self task w2
                       else addToDelayed self task w2))))"

section \<open>Task.run\<close>

text \<open>Modelled from the spec: \<open>Task.run()\<close> "only valid from pending; transitions to running,
  invokes callback. If the callback's result is synchronous, the outcome immediately
  resolves to completed (or, if persistent, resets to pending and is re-linked into the
  pending/delayed list by the owning queue). If the result is asynchronous, status remains
  running until the async result settles." The task leaves its list when it starts to
  run (the loop of \<open>flush\<close> relies on it); a reusable task returns to the pool when it
  completes. What a user callback does is the parameter \<open>call\<close>: it transforms the store
  and says whether its result is asynchronous.\<close>

definition Task_run ::
  "(nat \<Rightarrow> world \<Rightarrow> bool outcome option) \<Rightarrow> ref \<Rightarrow> world \<Rightarrow> unit outcome option" where
  "Task_run call t w =
     (if status (tasks w t) \<noteq> Pending then Some (Thrown RunNotPending w)
      else
        seq (remove (taskQueue (tasks w t)) t w)
        (\<lambda>_ w1.
          let w2 = updT t (\<lambda>x. x\<lparr>status := Running\<rparr>) w1 in
          seq (case callback (tasks w2 t) of
                 RequestFlush q \<Rightarrow> seq (requestFlush q w2) (\<lambda>_ w3. Some (Returned False w3))
               | User c \<Rightarrow> call c w2)
          (\<lambda>async w3.
            if async then Some (Returned () w3)
            else if persistent (tasks w3 t) then
              Some (resetPersistentTask (taskQueue (tasks w3 t)) t w3)
            else
              (let w4 = updT t (\<lambda>x. x\<lparr>status := Completed\<rparr>) w3 in
               Some (Returned ()
                 (if reusable (tasks w4 t) then returnToPool (taskQueue (tasks w4 t)) t w4
                  else w4))))))"

text \<open>Callbacks that touch nothing: a synchronous one and an asynchronous one.\<close>

definition idle :: "nat \<Rightarrow> world \<Rightarrow> bool outcome option" where
  "idle c w = Some (Returned (c \<noteq> 0) w)"

section \<open>A concrete scheduler\<close>

text \<open>The constructor of TaskQueue: empty lists, no pool, nothing requested.\<close>

definition TaskQueue_new :: "int \<Rightarrow> qref \<Rightarrow> TaskQueue" where
  "TaskQueue_new prio sched =
     \<lparr>priority = prio, scheduler = sched,
      processingSize = 0, processingHead = None, processingTail = None,
      suspenderTask = None, pendingAsyncCount = 0,
      pendingSize = 0, pendingHead = None, pendingTail = None,
      delayedSize = 0, delayedHead = None, delayedTail = None,
      flushRequested = False, yieldPromise = None,
      taskPool = (\<lambda>_. None), taskPoolSize = 0, lastRequest = 0,
      microTaskRequestFlushTask = None, flushRequestor = 0\<rparr>"

definition noTask :: Task where
  "noTask = \<lparr>taskQueue = 0, createdTime = 0, queueTime = 0, preempt = False,
     persistent = False, suspend = False, reusable = False, callback = User 0,
     status = Canceled, prev_t = None, next_t = None\<rparr>"

text \<open>Modelled from the spec: a Scheduler owns one TaskQueue per priority tier. In
  \<open>boot\<close> the queue with reference \<open>n\<close> has priority \<open>n\<close> (0 is the microtask tier), the
  macrotask queue is queue 2, and no task has been created yet.\<close>

definition boot :: world where
  "boot = \<lparr>now = 0, tasks = (\<lambda>_. noTask), nextTask = 0,
            queues = (\<lambda>q. TaskQueue_new (int q) 2), nextPromise = 0, resolved = []\<rparr>"

text \<open>The clock is external: time passes between two calls.\<close>

definition advance :: "int \<Rightarrow> world \<Rightarrow> world" where
  "advance d w = w\<lparr>now := now w + d\<rparr>"

text \<open>The store that a call leaves behind (the initial store if the call does not return).\<close>

definition stored :: "'a outcome option \<Rightarrow> world" where
  "stored r = (case r of Some (Returned _ w) \<Rightarrow> w | Some (Thrown _ w) \<Rightarrow> w | None \<Rightarrow> boot)"

section \<open>Lists in the store\<close>

text \<open>
  \<open>chain h p xs q\<close>: following the \<open>next\<close> links from \<open>p\<close> visits exactly the tasks \<open>xs\<close>
  and arrives at \<open>q\<close>; with \<open>q = None\<close> the list ends there. \<open>walk h p n\<close> follows \<open>n\<close> links
  and is the executable form.
\<close>

fun chain :: "(ref \<Rightarrow> Task) \<Rightarrow> ref option \<Rightarrow> ref list \<Rightarrow> ref option \<Rightarrow> bool" where
  "chain h p [] q = (p = q)"
| "chain h p (x # xs) q = (p = Some x \<and> chain h (next_t (h x)) xs q)"

fun walk :: "(ref \<Rightarrow> Task) \<Rightarrow> ref option \<Rightarrow> nat \<Rightarrow> (ref list \<times> ref option) option" where
  "walk h p 0 = Some ([], p)"
| "walk h p (Suc n) =
     (case p of
        None \<Rightarrow> None
      | Some x \<Rightarrow> map_option (\<lambda>(xs, q). (x # xs, q)) (walk h (next_t (h x)) n))"

definition lastOpt :: "'a list \<Rightarrow> 'a option" where
  "lastOpt xs = (if xs = [] then None else Some (last xs))"

definition headOpt :: "'a list \<Rightarrow> 'a option" where
  "headOpt xs = (case xs of [] \<Rightarrow> None | x # _ \<Rightarrow> Some x)"

lemma lastOpt_simps [simp]:
  "lastOpt [] = None" "lastOpt (xs @ [x]) = Some x" "lastOpt (x # xs) = Some (last (x # xs))"
  by (simp_all add: lastOpt_def)

lemma headOpt_simps [simp]: "headOpt [] = None" "headOpt (x # xs) = Some x"
  by (simp_all add: headOpt_def)

lemma walk_chain: "walk h p n = Some (xs, q) \<longleftrightarrow> chain h p xs q \<and> length xs = n"
proof (induction n arbitrary: p xs)
  case 0
  then show ?case by auto
next
  case (Suc n)
  show ?case
  proof (cases p)
    case None
    then show ?thesis by (cases xs) auto
  next
    case (Some x)
    then show ?thesis using Suc [of "next_t (h x)"] by (cases xs) auto
  qed
qed

lemma chain_append: "chain h p (xs @ ys) q \<longleftrightarrow> (\<exists>r. chain h p xs r \<and> chain h r ys q)"
  by (induction xs arbitrary: p) auto

lemma chain_frame:
  "(\<And>x. x \<in> set xs \<Longrightarrow> next_t (h' x) = next_t (h x)) \<Longrightarrow> chain h' p xs q = chain h p xs q"
  by (induction xs arbitrary: p) auto

lemma chain_snoc: "chain h p (xs @ [x]) q \<longleftrightarrow> chain h p xs (Some x) \<and> next_t (h x) = q"
  by (auto simp: chain_append)

lemma chain_prefix:
  "chain h p xs None \<Longrightarrow> chain h p ys q \<Longrightarrow> \<exists>zs. xs = ys @ zs \<and> chain h q zs None"
proof (induction ys arbitrary: p xs)
  case Nil
  then show ?case by auto
next
  case (Cons y ys)
  then show ?case by (cases xs) auto
qed

lemma chain_unique: "chain h p xs None \<Longrightarrow> chain h p ys None \<Longrightarrow> xs = ys"
  using chain_prefix [of h p xs ys None] by (cases "drop (length ys) xs") auto

lemma chain_distinct: "chain h p xs None \<Longrightarrow> distinct xs"
proof (induction xs arbitrary: p)
  case Nil
  then show ?case by simp
next
  case (Cons x xs)
  then have tl: "chain h (next_t (h x)) xs None" and d: "distinct xs" by auto
  have "x \<notin> set xs"
  proof
    assume "x \<in> set xs"
    then obtain as bs where xs: "xs = as @ x # bs" by (meson split_list)
    with tl have "chain h (next_t (h x)) bs None" by (auto simp: chain_append)
    with tl have "xs = bs" by (rule chain_unique)
    with xs show False by simp
  qed
  with d show ?case by simp
qed

lemma findTask_chain: "chain h p xs None \<Longrightarrow> findTask h p t = Some (t \<in> set xs)"
proof (induction xs arbitrary: p)
  case Nil
  then show ?case by (simp add: findTask.simps)
next
  case (Cons x xs)
  then show ?case by (subst findTask.simps) auto
qed

lemma allPersistent_chain:
  "chain h p xs None \<Longrightarrow> allPersistent h p = Some (\<forall>x\<in>set xs. persistent (h x))"
proof (induction xs arbitrary: p)
  case Nil
  then show ?case by (simp add: allPersistent.simps)
next
  case (Cons x xs)
  then show ?case by (subst allPersistent.simps) auto
qed

lemma dueLoop_chain:
  "chain h nxt ys None \<Longrightarrow>
   dueLoop h time dTail nxt count =
     Some (last (dTail # takeWhile (\<lambda>t. queueTime (h t) \<le> time) ys),
           headOpt (dropWhile (\<lambda>t. queueTime (h t) \<le> time) ys),
           count + int (length (takeWhile (\<lambda>t. queueTime (h t) \<le> time) ys)))"
proof (induction ys arbitrary: nxt dTail count)
  case Nil
  then show ?case by (simp add: dueLoop.simps)
next
  case (Cons y ys)
  then show ?case by (subst dueLoop.simps) auto
qed

lemma updQ_simps [simp]:
  "queues (updQ s f w) = (queues w)(s := f (queues w s))"
  "tasks (updQ s f w) = tasks w"
  "now (updQ s f w) = now w"
  "nextTask (updQ s f w) = nextTask w"
  "nextPromise (updQ s f w) = nextPromise w"
  "resolved (updQ s f w) = resolved w"
  by (simp_all add: updQ_def)

lemma updT_simps [simp]:
  "tasks (updT t g w) = (tasks w)(t := g (tasks w t))"
  "queues (updT t g w) = queues w"
  "now (updT t g w) = now w"
  "nextTask (updT t g w) = nextTask w"
  "nextPromise (updT t g w) = nextPromise w"
  "resolved (updT t g w) = resolved w"
  by (simp_all add: updT_def)

text \<open>
  What the queue caches about a list: \<open>listAt h hp tp sz xs\<close> says that the list that starts
  at head \<open>hp\<close> and ends with \<open>None\<close> holds the tasks \<open>xs\<close>, that the cached tail \<open>tp\<close> is its
  last task and the cached size \<open>sz\<close> its length. \<open>nodes h p n\<close> are the first \<open>n\<close> tasks
  from \<open>p\<close>, which is what the loop of \<open>flush\<close> sees of the processing list.
\<close>

definition listAt :: "(ref \<Rightarrow> Task) \<Rightarrow> ref option \<Rightarrow> ref option \<Rightarrow> int \<Rightarrow> ref list \<Rightarrow> bool" where
  "listAt h hp tp sz xs = (chain h hp xs None \<and> tp = lastOpt xs \<and> sz = int (length xs))"

definition processingList :: "qref \<Rightarrow> world \<Rightarrow> ref list \<Rightarrow> bool" where
  "processingList self w xs =
     listAt (tasks w) (processingHead (queues w self)) (processingTail (queues w self))
       (processingSize (queues w self)) xs"

definition pendingList :: "qref \<Rightarrow> world \<Rightarrow> ref list \<Rightarrow> bool" where
  "pendingList self w xs =
     listAt (tasks w) (pendingHead (queues w self)) (pendingTail (queues w self))
       (pendingSize (queues w self)) xs"

definition delayedList :: "qref \<Rightarrow> world \<Rightarrow> ref list \<Rightarrow> bool" where
  "delayedList self w xs =
     listAt (tasks w) (delayedHead (queues w self)) (delayedTail (queues w self))
       (delayedSize (queues w self)) xs"

definition nodes :: "(ref \<Rightarrow> Task) \<Rightarrow> ref option \<Rightarrow> nat \<Rightarrow> ref list option" where
  "nodes h p n = map_option fst (walk h p n)"

lemma nodes_chain: "nodes h p n = Some xs \<longleftrightarrow> (\<exists>q. chain h p xs q \<and> length xs = n)"
  by (auto simp: nodes_def walk_chain)

definition due :: "world \<Rightarrow> ref \<Rightarrow> bool" where
  "due w t = (queueTime (tasks w t) \<le> now w)"

lemma chain_split_headOpt:
  "chain h p (xs @ ys) None \<Longrightarrow> chain h p xs (headOpt ys) \<and> chain h (headOpt ys) ys None"
  by (cases ys) (auto simp: chain_append)

lemma chain_append_last:
  "chain h p (xs @ ys) q \<Longrightarrow> xs \<noteq> [] \<Longrightarrow> chain h (next_t (h (last xs))) ys q"
  by (induction xs arbitrary: p) (auto split: if_splits)

lemma chain_relink:
  assumes "chain h p xs None" "xs \<noteq> []" "chain h r ys q" "set xs \<inter> set ys = {}"
  shows "chain (h(last xs := (h (last xs))\<lparr>next_t := r\<rparr>)) p (xs @ ys) q"
proof -
  let ?h = "h(last xs := (h (last xs))\<lparr>next_t := r\<rparr>)"
  obtain as where xs: "xs = as @ [last xs]" using assms(2) by (metis append_butlast_last_id)
  have d: "distinct xs" using assms(1) by (rule chain_distinct)
  then have notin: "last xs \<notin> set as" using xs by (metis distinct_append disjoint_iff list.set_intros(1) distinct.simps(2) distinct1_rotate rotate1.simps(2))
  have "chain h p as (Some (last xs))" using assms(1) xs by (metis chain_snoc)
  then have 1: "chain ?h p as (Some (last xs))"
    using notin by (subst chain_frame [where h = h]) auto
  have "last xs \<notin> set ys" using assms(2,4) by (meson disjoint_iff last_in_set)
  then have 2: "chain ?h r ys q" using assms(3) by (subst chain_frame [where h = h]) auto
  have "chain ?h p (as @ [last xs] @ ys) q"
    using 1 2 by (auto simp: chain_append)
  then show ?thesis using xs by (metis append.assoc)
qed

section \<open>Basic facts\<close>

definition invalidArguments :: "opt list \<Rightarrow> qref \<Rightarrow> world \<Rightarrow> bool" where
  "invalidArguments opts self w =
     (let m = mergeOptions opts in
        opt_preempt m \<and> delay m > 0
      \<or> opt_preempt m \<and> opt_persistent m
      \<or> opt_persistent m \<and> priority (queues w self) = 0)"

definition argumentError :: "error \<Rightarrow> bool" where
  "argumentError e = (e = PreemptWithDelay \<or> e = PreemptWithPersistent \<or> e = PersistentOnMicroTask)"

lemma seq_simps [simp]:
  "seq None f = None"
  "seq (Some (Thrown e w)) f = Some (Thrown e w)"
  "seq (Some (Returned a w)) f = f a w"
  by (simp_all add: seq_def)

lemma seq_Thrown_iff:
  "seq m f = Some (Thrown e w') \<longleftrightarrow>
     m = Some (Thrown e w') \<or> (\<exists>a w1. m = Some (Returned a w1) \<and> f a w1 = Some (Thrown e w'))"
  by (auto simp: seq_def split: option.splits outcome.splits)

lemma seq_Returned_iff:
  "seq m f = Some (Returned b w') \<longleftrightarrow>
     (\<exists>a w1. m = Some (Returned a w1) \<and> f a w1 = Some (Returned b w'))"
  by (auto simp: seq_def split: option.splits outcome.splits)

lemma remove_Thrown:
  "remove self t w = Some (Thrown e w') \<Longrightarrow> e = TaskNotFound \<and> w' = w"
  by (auto simp: remove_def split: if_splits option.splits bool.splits)

lemma Task_cancel_Thrown:
  "Task_cancel t w = Some (Thrown e w') \<Longrightarrow> e = TaskNotFound \<and> w' = w"
  by (auto simp: Task_cancel_def seq_Thrown_iff split: if_splits dest: remove_Thrown)

lemma cancelMicroTaskRequestFlushTask_Thrown:
  "cancelMicroTaskRequestFlushTask self w = Some (Thrown e w') \<Longrightarrow> e = TaskNotFound \<and> w' = w"
  by (auto simp: cancelMicroTaskRequestFlushTask_def seq_Thrown_iff
      split: option.splits dest: Task_cancel_Thrown)

lemma requestFlush_Thrown:
  "requestFlush self w = Some (Thrown e w') \<Longrightarrow> e = TaskNotFound \<and> w' = w"
  by (auto simp: requestFlush_def seq_Thrown_iff dest: cancelMicroTaskRequestFlushTask_Thrown)

lemma addTo_Thrown:
  "addToProcessing self t w = Thrown e w' \<Longrightarrow> e = TypeError"
  "addToPending self t w = Thrown e w' \<Longrightarrow> e = TypeError"
  "addToDelayed self t w = Thrown e w' \<Longrightarrow> e = TypeError"
  by (auto simp: addToProcessing_def addToPending_def addToDelayed_def Let_def
      split: if_splits option.splits)

lemma queueTask_invalid:
  "invalidArguments opts self w \<Longrightarrow>
     \<exists>e. argumentError e \<and> queueTask cb opts self w = Some (Thrown e w)"
  by (auto simp: invalidArguments_def queueTask_def argumentError_def Let_def)

lemma queueTask_valid_Thrown:
  assumes "\<not> invalidArguments opts self w" "queueTask cb opts self w = Some (Thrown e w')"
  shows "e = TaskNotFound \<or> e = TypeError"
  using assms
  by (auto simp: invalidArguments_def queueTask_def Let_def seq_Thrown_iff Task_new_def
      split: if_splits option.splits outcome.splits prod.splits
      dest: requestFlush_Thrown addTo_Thrown)

section \<open>The effect of linking a task\<close>

text \<open>\<open>nextObject\<close> is the Task object that \<open>queueTask\<close> will use: the top of the pool for a
  reusable request on a non-empty pool, a new object otherwise.\<close>

definition sameLists :: "qref \<Rightarrow> world \<Rightarrow> world \<Rightarrow> bool" where
  "sameLists self w w' =
     (processingHead (queues w' self) = processingHead (queues w self)
      \<and> processingTail (queues w' self) = processingTail (queues w self)
      \<and> processingSize (queues w' self) = processingSize (queues w self)
      \<and> pendingHead (queues w' self) = pendingHead (queues w self)
      \<and> pendingTail (queues w' self) = pendingTail (queues w self)
      \<and> pendingSize (queues w' self) = pendingSize (queues w self)
      \<and> delayedHead (queues w' self) = delayedHead (queues w self)
      \<and> delayedTail (queues w' self) = delayedTail (queues w self)
      \<and> delayedSize (queues w' self) = delayedSize (queues w self))"

lemma listAt_frame:
  "listAt h hp tp sz xs \<Longrightarrow> (\<And>x. x \<in> set xs \<Longrightarrow> next_t (h' x) = next_t (h x))
     \<Longrightarrow> listAt h' hp tp sz xs"
  unfolding listAt_def using chain_frame [of xs h' h hp None] by blast

lemma listAt_single:
  "next_t (h t) = None \<Longrightarrow> listAt (h(t := (h t)\<lparr>prev_t := tp\<rparr>)) (Some t) (Some t) 1 [t]"
  by (simp add: listAt_def)

lemma listAt_snoc:
  assumes "listAt h hp tp sz xs" "t \<notin> set xs" "next_t (h t) = None" "tp = Some old"
  shows "old \<noteq> t \<and> old \<in> set xs \<and>
         listAt (h(t := (h t)\<lparr>prev_t := tp\<rparr>, old := (h old)\<lparr>next_t := Some t\<rparr>))
           hp (Some t) (sz + 1) (xs @ [t])"
proof -
  have ne: "xs \<noteq> []" and old: "old = last xs"
    using assms(1,4) by (auto simp: listAt_def lastOpt_def split: if_splits)
  have ot: "old \<noteq> t" and oin: "old \<in> set xs" using ne old assms(2) by auto
  let ?h1 = "h(t := (h t)\<lparr>prev_t := tp\<rparr>)"
  have "chain h hp xs None" using assms(1) by (simp add: listAt_def)
  moreover have "chain ?h1 hp xs None = chain h hp xs None"
    using assms(2) by (intro chain_frame) auto
  ultimately have c1: "chain ?h1 hp xs None" by simp
  have n1: "next_t (?h1 t) = None" using assms(3) by simp
  have c2: "chain ?h1 (Some t) [t] None" using n1 by simp
  have "set xs \<inter> set [t] = {}" using assms(2) by simp
  from chain_relink [OF c1 ne c2 this]
  have "chain (?h1(old := (?h1 old)\<lparr>next_t := Some t\<rparr>)) hp (xs @ [t]) None"
    using old by simp
  then have "chain (h(t := (h t)\<lparr>prev_t := tp\<rparr>, old := (h old)\<lparr>next_t := Some t\<rparr>)) hp (xs @ [t]) None"
    using ot by simp
  then show ?thesis
    using assms(1) ot oin by (simp add: listAt_def)
qed

lemma addToProcessing_append:
  assumes "processingList self w ps" "t \<notin> set ps" "next_t (tasks w t) = None"
  shows "\<exists>w'. addToProcessing self t w = Returned () w' \<and> processingList self w' (ps @ [t])
      \<and> (\<forall>x. x \<notin> set ps \<longrightarrow> next_t (tasks w' x) = next_t (tasks w x))
      \<and> pendingHead (queues w' self) = pendingHead (queues w self)
      \<and> pendingTail (queues w' self) = pendingTail (queues w self)
      \<and> pendingSize (queues w' self) = pendingSize (queues w self)
      \<and> delayedHead (queues w' self) = delayedHead (queues w self)
      \<and> delayedTail (queues w' self) = delayedTail (queues w self)
      \<and> delayedSize (queues w' self) = delayedSize (queues w self)"
proof (cases "ps = []")
  case True
  then have "processingSize (queues w self) = 0"
    using assms(1) by (simp add: processingList_def listAt_def)
  then show ?thesis
    using True assms(3) by (simp add: addToProcessing_def Let_def processingList_def listAt_def)
next
  case False
  let ?q = "queues w self"
  have la: "listAt (tasks w) (processingHead ?q) (processingTail ?q) (processingSize ?q) ps"
    using assms(1) by (simp add: processingList_def)
  then have sz: "processingSize ?q \<noteq> 0" and tl: "processingTail ?q = Some (last ps)"
    using False by (auto simp: listAt_def lastOpt_def)
  have lt: "last ps \<in> set ps" using False by simp
  from listAt_snoc [OF la assms(2,3) tl]
  show ?thesis
    using sz tl by (auto simp: addToProcessing_def Let_def processingList_def)
qed

lemma addToPending_append:
  assumes "pendingList self w ps" "t \<notin> set ps" "next_t (tasks w t) = None"
  shows "\<exists>w'. addToPending self t w = Returned () w' \<and> pendingList self w' (ps @ [t])
      \<and> (\<forall>x. x \<notin> set ps \<longrightarrow> next_t (tasks w' x) = next_t (tasks w x))
      \<and> processingHead (queues w' self) = processingHead (queues w self)
      \<and> processingTail (queues w' self) = processingTail (queues w self)
      \<and> processingSize (queues w' self) = processingSize (queues w self)
      \<and> delayedHead (queues w' self) = delayedHead (queues w self)
      \<and> delayedTail (queues w' self) = delayedTail (queues w self)
      \<and> delayedSize (queues w' self) = delayedSize (queues w self)"
proof (cases "ps = []")
  case True
  then have "pendingSize (queues w self) = 0"
    using assms(1) by (simp add: pendingList_def listAt_def)
  then show ?thesis
    using True assms(3) by (simp add: addToPending_def Let_def pendingList_def listAt_def)
next
  case False
  let ?q = "queues w self"
  have la: "listAt (tasks w) (pendingHead ?q) (pendingTail ?q) (pendingSize ?q) ps"
    using assms(1) by (simp add: pendingList_def)
  then have sz: "pendingSize ?q \<noteq> 0" and tl: "pendingTail ?q = Some (last ps)"
    using False by (auto simp: listAt_def lastOpt_def)
  have lt: "last ps \<in> set ps" using False by simp
  from listAt_snoc [OF la assms(2,3) tl]
  show ?thesis
    using sz tl by (auto simp: addToPending_def Let_def pendingList_def)
qed

lemma addToDelayed_append:
  assumes "delayedList self w ps" "t \<notin> set ps" "next_t (tasks w t) = None"
  shows "\<exists>w'. addToDelayed self t w = Returned () w' \<and> delayedList self w' (ps @ [t])
      \<and> (\<forall>x. x \<notin> set ps \<longrightarrow> next_t (tasks w' x) = next_t (tasks w x))
      \<and> processingHead (queues w' self) = processingHead (queues w self)
      \<and> processingTail (queues w' self) = processingTail (queues w self)
      \<and> processingSize (queues w' self) = processingSize (queues w self)
      \<and> pendingHead (queues w' self) = pendingHead (queues w self)
      \<and> pendingTail (queues w' self) = pendingTail (queues w self)
      \<and> pendingSize (queues w' self) = pendingSize (queues w self)"
proof (cases "ps = []")
  case True
  then have "delayedSize (queues w self) = 0"
    using assms(1) by (simp add: delayedList_def listAt_def)
  then show ?thesis
    using True assms(3) by (simp add: addToDelayed_def Let_def delayedList_def listAt_def)
next
  case False
  let ?q = "queues w self"
  have la: "listAt (tasks w) (delayedHead ?q) (delayedTail ?q) (delayedSize ?q) ps"
    using assms(1) by (simp add: delayedList_def)
  then have sz: "delayedSize ?q \<noteq> 0" and tl: "delayedTail ?q = Some (last ps)"
    using False by (auto simp: listAt_def lastOpt_def)
  have lt: "last ps \<in> set ps" using False by simp
  from listAt_snoc [OF la assms(2,3) tl]
  show ?thesis
    using sz tl by (auto simp: addToDelayed_def Let_def delayedList_def)
qed

definition nextObject :: "opt list \<Rightarrow> qref \<Rightarrow> world \<Rightarrow> ref option" where
  "nextObject opts self w =
     (let m = mergeOptions opts; index = taskPoolSize (queues w self) - 1 in
      if opt_reusable m \<and> index \<ge> 0 then taskPool (queues w self) (nat index)
      else Some (nextTask w))"

lemma requestFlush_no_poke:
  assumes "microTaskRequestFlushTask (queues w self) = None"
  shows "\<exists>w1. requestFlush self w = Some (Returned () w1) \<and> tasks w1 = tasks w
     \<and> nextTask w1 = nextTask w \<and> now w1 = now w \<and> sameLists self w w1
     \<and> taskPool (queues w1 self) = taskPool (queues w self)
     \<and> taskPoolSize (queues w1 self) = taskPoolSize (queues w self)
     \<and> priority (queues w1 self) = priority (queues w self)"
  using assms
  by (simp add: requestFlush_def cancelMicroTaskRequestFlushTask_def sameLists_def)

lemma queueTask_steps:
  assumes valid: "\<not> invalidArguments opts self w"
      and obj: "nextObject opts self w = Some r"
      and poke: "processingSize (queues w self) = 0 \<longrightarrow> microTaskRequestFlushTask (queues w self) = None"
  shows "\<exists>w2. sameLists self w w2 \<and> (\<forall>x. x \<noteq> r \<longrightarrow> tasks w2 x = tasks w x)
      \<and> next_t (tasks w2 r) = None \<and> status (tasks w2 r) = Pending
      \<and> queueTime (tasks w2 r) = now w + delay (mergeOptions opts)
      \<and> createdTime (tasks w2 r) = now w
      \<and> preempt (tasks w2 r) = opt_preempt (mergeOptions opts)
      \<and> persistent (tasks w2 r) = opt_persistent (mergeOptions opts)
      \<and> suspend (tasks w2 r) = opt_suspend (mergeOptions opts)
      \<and> callback (tasks w2 r) = cb
      \<and> now w2 = now w
      \<and> queueTask cb opts self w =
          (case (if opt_preempt (mergeOptions opts) then addToProcessing self r w2
                 else if delay (mergeOptions opts) = 0 then addToPending self r w2
                 else addToDelayed self r w2) of
             Thrown e w4 \<Rightarrow> Some (Thrown e w4)
           | Returned _ w4 \<Rightarrow> Some (Returned r w4))"
proof -
  let ?m = "mergeOptions opts"
  have v: "(opt_preempt ?m \<and> delay ?m > 0) = False" "(opt_preempt ?m \<and> opt_persistent ?m) = False"
     "(opt_persistent ?m \<and> priority (queues w self) = 0) = False"
    using valid by (auto simp: invalidArguments_def Let_def)
  obtain w1 where w1: "(if processingSize (queues w self) = 0 then requestFlush self w
                        else Some (Returned () w)) = Some (Returned () w1)"
      "tasks w1 = tasks w" "nextTask w1 = nextTask w" "now w1 = now w" "sameLists self w w1"
      "taskPool (queues w1 self) = taskPool (queues w self)"
      "taskPoolSize (queues w1 self) = taskPoolSize (queues w self)"
  proof (cases "processingSize (queues w self) = 0")
    case True
    then show ?thesis using requestFlush_no_poke [of w self] poke that by auto
  next
    case False
    then show ?thesis using that [of w] by (simp add: sameLists_def)
  qed
  show ?thesis
  proof (cases "opt_reusable ?m \<and> taskPoolSize (queues w self) - 1 \<ge> 0")
    case True
    then have pool: "taskPool (queues w self) (nat (taskPoolSize (queues w self) - 1)) = Some r"
      using obj by (simp add: nextObject_def Let_def)
    let ?w2 = "Task_reuse r (now w1) (delay ?m) (opt_preempt ?m) (opt_persistent ?m) (opt_suspend ?m) cb
        (updQ self (\<lambda>q. q\<lparr>taskPool := (taskPool q)(nat (taskPoolSize (queues w1 self) - 1) := None),
                              taskPoolSize := taskPoolSize (queues w1 self) - 1\<rparr>) w1)"
    have q: "queueTask cb opts self w =
          (case (if opt_preempt ?m then addToProcessing self r ?w2
                 else if delay ?m = 0 then addToPending self r ?w2
                 else addToDelayed self r ?w2) of
             Thrown e w4 \<Rightarrow> Some (Thrown e w4)
           | Returned _ w4 \<Rightarrow> Some (Returned r w4))"
      using w1(1,6,7) True pool by (simp only: queueTask_def Let_def v if_False seq_simps) simp
    have "sameLists self w ?w2" using w1(5) by (simp add: sameLists_def Task_reuse_def)
    moreover have "\<forall>x. x \<noteq> r \<longrightarrow> tasks ?w2 x = tasks w x"
      using w1(2) by (simp add: Task_reuse_def)
    moreover have "tasks ?w2 r = (tasks w r)\<lparr>createdTime := now w, queueTime := now w + delay ?m,
        preempt := opt_preempt ?m, persistent := opt_persistent ?m, suspend := opt_suspend ?m,
        callback := cb, status := Pending, prev_t := None, next_t := None\<rparr>"
      using w1(2,4) by (simp add: Task_reuse_def)
    moreover have "now ?w2 = now w" using w1(4) by (simp add: Task_reuse_def)
    ultimately show ?thesis using q by (intro exI [of _ ?w2]) simp
  next
    case False
    then have r: "r = nextTask w" using obj by (auto simp: nextObject_def Let_def)
    let ?w2 = "snd (Task_new self (now w1) (now w1 + delay ?m) (opt_preempt ?m) (opt_persistent ?m)
                      (opt_suspend ?m) (opt_reusable ?m) cb w1)"
    have q: "queueTask cb opts self w =
          (case (if opt_preempt ?m then addToProcessing self r ?w2
                 else if delay ?m = 0 then addToPending self r ?w2
                 else addToDelayed self r ?w2) of
             Thrown e w4 \<Rightarrow> Some (Thrown e w4)
           | Returned _ w4 \<Rightarrow> Some (Returned r w4))"
      using w1(1,3,6,7) False r by (simp only: queueTask_def Let_def v if_False seq_simps) (simp add: Task_new_def)
    have "sameLists self w ?w2" using w1(5) by (simp add: sameLists_def Task_new_def)
    moreover have "\<forall>x. x \<noteq> r \<longrightarrow> tasks ?w2 x = tasks w x"
      using w1(2,3) r by (simp add: Task_new_def)
    moreover have "tasks ?w2 r = \<lparr>taskQueue = self, createdTime = now w,
        queueTime = now w + delay ?m, preempt = opt_preempt ?m, persistent = opt_persistent ?m,
        suspend = opt_suspend ?m, reusable = opt_reusable ?m, callback = cb, status = Pending,
        prev_t = None, next_t = None\<rparr>"
      using w1(2,3,4) r by (simp add: Task_new_def)
    moreover have "now ?w2 = now w" using w1(4) by (simp add: Task_new_def)
    ultimately show ?thesis using q by (intro exI [of _ ?w2]) simp
  qed
qed


lemma processingList_transfer:
  assumes "processingList self w xs"
    "processingHead (queues w' self) = processingHead (queues w self)"
    "processingTail (queues w' self) = processingTail (queues w self)"
    "processingSize (queues w' self) = processingSize (queues w self)"
    "\<forall>x\<in>set xs. next_t (tasks w' x) = next_t (tasks w x)"
  shows "processingList self w' xs"
  using assms listAt_frame [of "tasks w" _ _ _ xs "tasks w'"]
  by (simp add: processingList_def)

lemma pendingList_transfer:
  assumes "pendingList self w xs"
    "pendingHead (queues w' self) = pendingHead (queues w self)"
    "pendingTail (queues w' self) = pendingTail (queues w self)"
    "pendingSize (queues w' self) = pendingSize (queues w self)"
    "\<forall>x\<in>set xs. next_t (tasks w' x) = next_t (tasks w x)"
  shows "pendingList self w' xs"
  using assms listAt_frame [of "tasks w" _ _ _ xs "tasks w'"]
  by (simp add: pendingList_def)

lemma delayedList_transfer:
  assumes "delayedList self w xs"
    "delayedHead (queues w' self) = delayedHead (queues w self)"
    "delayedTail (queues w' self) = delayedTail (queues w self)"
    "delayedSize (queues w' self) = delayedSize (queues w self)"
    "\<forall>x\<in>set xs. next_t (tasks w' x) = next_t (tasks w x)"
  shows "delayedList self w' xs"
  using assms listAt_frame [of "tasks w" _ _ _ xs "tasks w'"]
  by (simp add: delayedList_def)

lemma movePendingToProcessing_splice:
  assumes ps: "processingList self w ps" and pend: "pendingList self w pend"
      and ne: "pend \<noteq> []" and disj: "set ps \<inter> set pend = {}"
  shows "\<exists>w'. movePendingToProcessing self w = Returned () w'
      \<and> processingList self w' (ps @ pend) \<and> pendingList self w' []
      \<and> (\<forall>x. x \<notin> set ps \<longrightarrow> next_t (tasks w' x) = next_t (tasks w x))
      \<and> delayedHead (queues w' self) = delayedHead (queues w self)
      \<and> delayedTail (queues w' self) = delayedTail (queues w self)
      \<and> delayedSize (queues w' self) = delayedSize (queues w self)"
proof -
  let ?q = "queues w self" and ?h = "tasks w"
  have pch: "chain ?h (processingHead ?q) ps None" and psz: "processingSize ?q = int (length ps)"
    and ptl: "processingTail ?q = lastOpt ps"
    using ps by (auto simp: processingList_def listAt_def)
  have nch: "chain ?h (pendingHead ?q) pend None" and nsz: "pendingSize ?q = int (length pend)"
    and ntl: "pendingTail ?q = lastOpt pend"
    using pend by (auto simp: pendingList_def listAt_def)
  have lp: "lastOpt (ps @ pend) = lastOpt pend" using ne by (simp add: lastOpt_def)
  show ?thesis
  proof (cases "ps = []")
    case True
    then have "processingSize ?q = 0" using psz by simp
    then show ?thesis
      using True nch nsz ntl
      by (simp add: movePendingToProcessing_def Let_def processingList_def pendingList_def listAt_def)
  next
    case False
    then have p0: "processingSize ?q \<noteq> 0" and pt: "processingTail ?q = Some (last ps)"
      using psz ptl by (auto simp: lastOpt_def)
    have lt: "last ps \<in> set ps" using False by simp
    from chain_relink [OF pch False nch disj]
    have "chain (?h(last ps := (?h (last ps))\<lparr>next_t := pendingHead ?q\<rparr>)) (processingHead ?q)
             (ps @ pend) None" .
    then show ?thesis
      using p0 pt lt psz nsz ntl lp
      by (auto simp: movePendingToProcessing_def Let_def processingList_def pendingList_def listAt_def)
  qed
qed

section \<open>Draining the processing list\<close>

text \<open>\<open>processingNodes\<close>: the processing list as the loop of \<open>flush\<close> sees it, the first
  \<open>processingSize\<close> tasks from \<open>processingHead\<close>.\<close>

definition processingNodes :: "qref \<Rightarrow> world \<Rightarrow> ref list option" where
  "processingNodes self w =
     nodes (tasks w) (processingHead (queues w self)) (nat (processingSize (queues w self)))"

lemma processingNodes_Cons:
  "processingNodes self w = Some (t # xs) \<Longrightarrow>
     processingSize (queues w self) > 0 \<and> processingHead (queues w self) = Some t"
  by (auto simp: processingNodes_def nodes_chain)

lemma processingNodes_Nil:
  "processingNodes self w = Some [] \<Longrightarrow> \<not> processingSize (queues w self) > 0"
  by (auto simp: processingNodes_def nodes_chain)

lemma processingNodes_async [simp]:
  "processingNodes self (updQ self (\<lambda>q. q\<lparr>pendingAsyncCount := f q\<rparr>) w) = processingNodes self w"
  by (simp add: processingNodes_def)

lemma drain_in_order:
  assumes step: "\<And>t w xs. I w \<Longrightarrow> processingNodes self w = Some (t # xs) \<Longrightarrow>
             \<exists>w'. run t w = Some (Returned () w') \<and> I w' \<and> processingNodes self w' = Some xs"
      and async: "\<And>w. I w \<Longrightarrow>
             I (updQ self (\<lambda>q. q\<lparr>pendingAsyncCount := pendingAsyncCount q + 1\<rparr>) w)"
      and clamp: "\<And>w t. I w \<Longrightarrow>
             \<exists>w'. requestFlushClamped self (updQ self (\<lambda>q. q\<lparr>suspenderTask := Some t\<rparr>) w)
                    = Some (Returned () w')"
  shows "I w \<Longrightarrow> processingNodes self w = Some xs \<Longrightarrow>
     \<exists>ys zs early w'. drain run self tr w = Some (Returned (tr @ ys, early) w')
        \<and> xs = ys @ zs \<and> (\<not> early \<longrightarrow> zs = [])"
proof (induction xs arbitrary: w tr)
  case Nil
  then have "drain run self tr w = Some (Returned (tr @ [], False) w)"
    using processingNodes_Nil [of self w] by (subst drain.simps) simp
  then show ?case by (intro exI [of _ "[]"] exI [of _ False] exI [of _ w]) simp
next
  case (Cons t xs)
  from processingNodes_Cons [OF Cons.prems(2)]
  have sz: "processingSize (queues w self) > 0" and h: "processingHead (queues w self) = Some t"
    by auto
  from step [OF Cons.prems] obtain w1 where
    w1: "run t w = Some (Returned () w1)" "I w1" "processingNodes self w1 = Some xs" by blast
  show ?case
  proof (cases "status (tasks w1 t) = Running")
    case False
    from Cons.IH [OF w1(2,3), of "tr @ [t]"] obtain ys zs early w' where
      "drain run self (tr @ [t]) w1 = Some (Returned ((tr @ [t]) @ ys, early) w')"
      "xs = ys @ zs" "\<not> early \<longrightarrow> zs = []" by blast
    then show ?thesis
      using sz h w1(1) False
      by (subst drain.simps) (auto intro!: exI [of _ "t # ys"])
  next
    case True
    show ?thesis
    proof (cases "suspend (tasks w1 t)")
      case True
      from clamp [OF w1(2), of t] obtain w2 where
        "requestFlushClamped self (updQ self (\<lambda>q. q\<lparr>suspenderTask := Some t\<rparr>) w1)
           = Some (Returned () w2)" by blast
      then show ?thesis
        using sz h w1(1) True \<open>status (tasks w1 t) = Running\<close>
        by (subst drain.simps) (auto intro!: exI [of _ "[t]"])
    next
      case False
      let ?w2 = "updQ self (\<lambda>q. q\<lparr>pendingAsyncCount := pendingAsyncCount q + 1\<rparr>) w1"
      have "I ?w2" "processingNodes self ?w2 = Some xs" using async [OF w1(2)] w1(3) by simp_all
      from Cons.IH [OF this, of "tr @ [t]"] obtain ys zs early w' where
        "drain run self (tr @ [t]) ?w2 = Some (Returned ((tr @ [t]) @ ys, early) w')"
        "xs = ys @ zs" "\<not> early \<longrightarrow> zs = []" by blast
      then show ?thesis
        using sz h w1(1) False \<open>status (tasks w1 t) = Running\<close>
        by (subst drain.simps) (auto intro!: exI [of _ "t # ys"])
    qed
  qed
qed

lemma queueTask_pending_appends:
  assumes npre: "\<not> opt_preempt (mergeOptions opts)" and d0: "delay (mergeOptions opts) = 0"
      and valid: "\<not> invalidArguments opts self w"
      and pend: "pendingList self w pend"
      and obj: "nextObject opts self w = Some r" and fresh: "r \<notin> set pend"
      and poke: "processingSize (queues w self) = 0
                   \<longrightarrow> microTaskRequestFlushTask (queues w self) = None"
  shows "\<exists>w'. queueTask cb opts self w = Some (Returned r w')
      \<and> pendingList self w' (pend @ [r])"
proof -
  from queueTask_steps [OF valid obj poke, of cb] npre d0 obtain w2 where
    w2: "sameLists self w w2" "\<And>x. x \<noteq> r \<Longrightarrow> tasks w2 x = tasks w x"
      "next_t (tasks w2 r) = None"
      "queueTask cb opts self w =
         (case addToPending self r w2 of
            Thrown e w4 \<Rightarrow> Some (Thrown e w4) | Returned _ w4 \<Rightarrow> Some (Returned r w4))"
    by auto
  have "\<forall>x\<in>set pend. next_t (tasks w2 x) = next_t (tasks w x)"
    using w2(2) fresh by metis
  then have pend2: "pendingList self w2 pend"
    using w2(1) by (intro pendingList_transfer [OF pend]) (simp_all add: sameLists_def)
  from addToPending_append [OF pend2 fresh w2(3)] obtain w' where
    "addToPending self r w2 = Returned () w'" "pendingList self w' (pend @ [r])"
    by blast
  then show ?thesis using w2(4) by simp
qed


lemma finish_simps [simp]:
  "queues (finish t w) = queues w" "now (finish t w) = now w" "nextTask (finish t w) = nextTask w"
  "nextPromise (finish t w) = nextPromise w" "resolved (finish t w) = resolved w"
  by (simp_all add: finish_def Let_def split: option.splits)

lemma finish_tasks:
  "tasks (finish t w) x =
     (tasks w x)\<lparr>prev_t := (if next_t (tasks w t) = Some x then prev_t (tasks w t)
                              else prev_t (tasks w x)),
                 next_t := (if prev_t (tasks w t) = Some x then next_t (tasks w t)
                              else next_t (tasks w x))\<rparr>"
  by (auto simp: finish_def Let_def split: option.splits)


lemma removeFromProcessing_tasks [simp]:
  "tasks (removeFromProcessing self t w) = tasks (finish t w)"
  by (simp add: removeFromProcessing_def Let_def finish_def split: option.splits)

lemma removeFromProcessing_world [simp]:
  "now (removeFromProcessing self t w) = now w" "nextTask (removeFromProcessing self t w) = nextTask w"
  "s \<noteq> self \<Longrightarrow> queues (removeFromProcessing self t w) s = queues w s"
  by (simp_all add: removeFromProcessing_def Let_def)

lemma removeFromProcessing_queue:
  "queues (removeFromProcessing self t w) self =
     (queues w self)\<lparr>processingHead := (if processingHead (queues w self) = Some t
                                     then next_t (tasks w t) else processingHead (queues w self)),
                      processingTail := (if processingTail (queues w self) = Some t
                                     then prev_t (tasks w t) else processingTail (queues w self)),
                      processingSize := processingSize (queues w self) - 1\<rparr>"
  by (simp add: removeFromProcessing_def Let_def)

lemma removeFromPending_tasks [simp]:
  "tasks (removeFromPending self t w) = tasks (finish t w)"
  by (simp add: removeFromPending_def Let_def finish_def split: option.splits)

lemma removeFromPending_world [simp]:
  "now (removeFromPending self t w) = now w" "nextTask (removeFromPending self t w) = nextTask w"
  "s \<noteq> self \<Longrightarrow> queues (removeFromPending self t w) s = queues w s"
  by (simp_all add: removeFromPending_def Let_def)

lemma removeFromPending_queue:
  "queues (removeFromPending self t w) self =
     (queues w self)\<lparr>pendingHead := (if pendingHead (queues w self) = Some t
                                     then next_t (tasks w t) else pendingHead (queues w self)),
                      pendingTail := (if pendingTail (queues w self) = Some t
                                     then prev_t (tasks w t) else pendingTail (queues w self)),
                      pendingSize := pendingSize (queues w self) - 1\<rparr>"
  by (simp add: removeFromPending_def Let_def)

lemma removeFromDelayed_tasks [simp]:
  "tasks (removeFromDelayed self t w) = tasks (finish t w)"
  by (simp add: removeFromDelayed_def Let_def finish_def split: option.splits)

lemma removeFromDelayed_world [simp]:
  "now (removeFromDelayed self t w) = now w" "nextTask (removeFromDelayed self t w) = nextTask w"
  "s \<noteq> self \<Longrightarrow> queues (removeFromDelayed self t w) s = queues w s"
  by (simp_all add: removeFromDelayed_def Let_def)

lemma removeFromDelayed_queue:
  "queues (removeFromDelayed self t w) self =
     (queues w self)\<lparr>delayedHead := (if delayedHead (queues w self) = Some t
                                     then next_t (tasks w t) else delayedHead (queues w self)),
                      delayedTail := (if delayedTail (queues w self) = Some t
                                     then prev_t (tasks w t) else delayedTail (queues w self)),
                      delayedSize := delayedSize (queues w self) - 1\<rparr>"
  by (simp add: removeFromDelayed_def Let_def)

definition asyncQueue :: "qref \<Rightarrow> world \<Rightarrow> bool" where
  "asyncQueue self w =
     (priority (queues w self) > 0 \<and> microTaskRequestFlushTask (queues w self) = None
      \<and> (case processingNodes self w of
            None \<Rightarrow> False
          | Some xs \<Rightarrow>
              distinct xs
              \<and> (case xs of [] \<Rightarrow> True | t # _ \<Rightarrow> prev_t (tasks w t) = None)
              \<and> list_all (\<lambda>t. status (tasks w t) = Pending \<and> taskQueue (tasks w t) = self
                              \<and> callback (tasks w t) = User 1
                              \<and> (preempt (tasks w t) \<or> queueTime (tasks w t) \<le> now w)) xs))"

lemma remove_head:
  assumes "processingHead (queues w self) = Some t"
      and "preempt (tasks w t) \<or> queueTime (tasks w t) \<le> now w"
  shows "remove self t w = Some (Returned () (removeFromProcessing self t w))"
  using assms by (auto simp: remove_def findTask.simps)

lemma nodes_frame:
  "(\<And>x. next_t (h' x) = next_t (h x)) \<Longrightarrow> nodes h' p n = nodes h p n"
proof -
  assume a: "\<And>x. next_t (h' x) = next_t (h x)"
  have "\<And>xs q. chain h' p xs q = chain h p xs q" by (rule chain_frame) (simp add: a)
  then have "\<And>xs. (nodes h' p n = Some xs) = (nodes h p n = Some xs)"
    by (simp add: nodes_chain)
  then show ?thesis by (metis option.exhaust)
qed

lemma nodes_Suc:
  "nodes h (Some t) (Suc n) = Some (t # xs) \<longleftrightarrow> nodes h (next_t (h t)) n = Some xs"
  by (auto simp: nodes_chain)

lemma Task_run_async_head:
  assumes I: "asyncQueue self w" and ps: "processingNodes self w = Some (t # xs)"
  shows "\<exists>w'. Task_run idle t w = Some (Returned () w') \<and> asyncQueue self w'
           \<and> processingNodes self w' = Some xs"
proof -
  let ?q = "queues w self" and ?h = "tasks w"
  from processingNodes_Cons [OF ps]
  have sz: "processingSize ?q > 0" and hd: "processingHead ?q = Some t" by auto
  have t: "status (?h t) = Pending" "taskQueue (?h t) = self" "callback (?h t) = User 1"
      "preempt (?h t) \<or> queueTime (?h t) \<le> now w" "prev_t (?h t) = None"
    and d: "t \<notin> set xs" "distinct xs"
    and rest: "list_all (\<lambda>t. status (?h t) = Pending \<and> taskQueue (?h t) = self
                              \<and> callback (?h t) = User 1
                              \<and> (preempt (?h t) \<or> queueTime (?h t) \<le> now w)) xs"
    and pr: "priority ?q > 0" "microTaskRequestFlushTask ?q = None"
    using I ps by (auto simp: asyncQueue_def)
  let ?w1 = "removeFromProcessing self t w"
  let ?w2 = "updT t (\<lambda>x. x\<lparr>status := Running\<rparr>) ?w1"
  have rm: "remove self t w = Some (Returned () ?w1)" using remove_head [OF hd t(4)] .
  have run: "Task_run idle t w = Some (Returned () ?w2)"
    using t(1,2,3) rm by (simp add: Task_run_def Let_def idle_def finish_tasks)
  have nx: "\<And>x. next_t (tasks ?w2 x) = next_t (?h x)"
    using t(5) by (simp add: finish_tasks)
  have n: "nat (processingSize ?q) = Suc (nat (processingSize ?q - 1))" using sz by simp
  have "nodes ?h (next_t (?h t)) (nat (processingSize ?q - 1)) = Some xs"
    using ps hd n by (simp add: processingNodes_def nodes_Suc)
  then have ps2: "processingNodes self ?w2 = Some xs"
    using hd nodes_frame [of "tasks ?w2" ?h, OF nx]
    by (simp add: processingNodes_def removeFromProcessing_queue)
  have hd2: "case xs of [] \<Rightarrow> True | n # _ \<Rightarrow> prev_t (tasks ?w2 n) = None"
  proof (cases xs)
    case Nil
    then show ?thesis by simp
  next
    case (Cons n ys)
    then have "next_t (?h t) = Some n"
      using \<open>nodes ?h (next_t (?h t)) (nat (processingSize ?q - 1)) = Some xs\<close>
      by (auto simp: nodes_chain)
    moreover have "n \<noteq> t" using d(1) Cons by auto
    ultimately show ?thesis using Cons t(5) by (simp add: finish_tasks)
  qed
  have rest2: "list_all (\<lambda>t. status (tasks ?w2 t) = Pending \<and> taskQueue (tasks ?w2 t) = self
                              \<and> callback (tasks ?w2 t) = User 1
                              \<and> (preempt (tasks ?w2 t) \<or> queueTime (tasks ?w2 t) \<le> now ?w2)) xs"
    using rest d(1) by (auto simp: list_all_iff finish_tasks)
  have "asyncQueue self ?w2"
    using pr ps2 d(2) hd2 rest2 by (simp add: asyncQueue_def removeFromProcessing_queue)
  with run ps2 show ?thesis by blast
qed

lemma asyncQueue_count:
  "asyncQueue self w \<Longrightarrow>
     asyncQueue self (updQ self (\<lambda>q. q\<lparr>pendingAsyncCount := pendingAsyncCount q + 1\<rparr>) w)"
  by (simp add: asyncQueue_def cong: option.case_cong list.case_cong)

lemma asyncQueue_clamp:
  "asyncQueue self w \<Longrightarrow>
     \<exists>w'. requestFlushClamped self (updQ self (\<lambda>q. q\<lparr>suspenderTask := Some t\<rparr>) w)
            = Some (Returned () w')"
  by (simp add: asyncQueue_def requestFlushClamped_def requestFlush_def
      cancelMicroTaskRequestFlushTask_def)


section \<open>Doubly-linked lists in the store\<close>

text \<open>
  \<open>dseg h pv p xs q\<close>: like \<open>chain\<close>, and every task's \<open>prev\<close> link names its predecessor
  (\<open>pv\<close> for the first). \<open>dlist\<close> is a whole list with its cached tail and size. \<open>unlink h t\<close>
  is what \<open>finish\<close> does to the links. \<open>linked self w ps pend ds\<close>: the three lists of the
  queue are well-formed doubly-linked lists holding \<open>ps\<close>, \<open>pend\<close> and \<open>ds\<close>, and no task is in
  two of them.
\<close>

fun dseg :: "(ref \<Rightarrow> Task) \<Rightarrow> ref option \<Rightarrow> ref option \<Rightarrow> ref list \<Rightarrow> ref option \<Rightarrow> bool" where
  "dseg h pv p [] q = (p = q)"
| "dseg h pv p (x # xs) q = (p = Some x \<and> prev_t (h x) = pv \<and> dseg h (Some x) (next_t (h x)) xs q)"

definition dlist :: "(ref \<Rightarrow> Task) \<Rightarrow> ref option \<Rightarrow> ref option \<Rightarrow> int \<Rightarrow> ref list \<Rightarrow> bool" where
  "dlist h hp tp sz xs = (dseg h None hp xs None \<and> tp = lastOpt xs \<and> sz = int (length xs))"

definition unlink :: "(ref \<Rightarrow> Task) \<Rightarrow> ref \<Rightarrow> ref \<Rightarrow> Task" where
  "unlink h t x =
     (h x)\<lparr>prev_t := (if next_t (h t) = Some x then prev_t (h t) else prev_t (h x)),
            next_t := (if prev_t (h t) = Some x then next_t (h t) else next_t (h x))\<rparr>"

lemma tasks_finish: "tasks (finish t w) = unlink (tasks w) t"
  by (rule ext) (simp add: finish_tasks unlink_def)

lemma dseg_chain: "dseg h pv p xs q \<Longrightarrow> chain h p xs q"
  by (induction xs arbitrary: pv p) auto

lemma dseg_frame:
  "(\<And>x. x \<in> set xs \<Longrightarrow> next_t (h' x) = next_t (h x) \<and> prev_t (h' x) = prev_t (h x))
     \<Longrightarrow> dseg h' pv p xs q = dseg h pv p xs q"
  by (induction xs arbitrary: pv p) auto

lemma dseg_prev:
  "dseg h pv p xs q \<Longrightarrow> t \<in> set xs \<Longrightarrow>
     prev_t (h t) = pv \<or> (\<exists>y\<in>set xs. prev_t (h t) = Some y)"
  by (induction xs arbitrary: pv p) auto

lemma dseg_next:
  "dseg h pv p xs None \<Longrightarrow> t \<in> set xs \<Longrightarrow>
     next_t (h t) = None \<or> (\<exists>n\<in>set xs. next_t (h t) = Some n)"
proof (induction xs arbitrary: pv p)
  case Nil
  then show ?case by simp
next
  case (Cons x xs)
  show ?case
  proof (cases "t = x")
    case True
    then show ?thesis using Cons.prems by (cases xs) auto
  next
    case False
    then show ?thesis using Cons by auto
  qed
qed

lemma dseg_remove:
  "dseg h pv p xs None \<Longrightarrow> t \<in> set xs \<Longrightarrow> distinct xs \<Longrightarrow> (\<forall>y. pv = Some y \<longrightarrow> y \<notin> set xs) \<Longrightarrow>
   dseg (unlink h t) pv (if p = Some t then next_t (h t) else p) (remove1 t xs) None"
proof (induction xs arbitrary: pv p)
  case Nil
  then show ?case by simp
next
  case (Cons x xs)
  show ?case
  proof (cases "x = t")
    case True
    have p: "p = Some t" and pt: "prev_t (h t) = pv"
      and rest: "dseg h (Some t) (next_t (h t)) xs None"
      using Cons.prems(1) True by auto
    have tn: "t \<notin> set xs" "distinct xs" using Cons.prems(3) True by auto
    have pvn: "\<And>z. z \<in> set xs \<Longrightarrow> prev_t (h t) \<noteq> Some z"
      using Cons.prems(4) pt by auto
    have "dseg (unlink h t) pv (next_t (h t)) xs None"
    proof (cases xs)
      case Nil
      then show ?thesis using rest by simp
    next
      case (Cons n bs)
      have nx: "next_t (h t) = Some n" and nb: "dseg h (Some n) (next_t (h n)) bs None"
        using rest Cons by auto
      have nbs: "n \<notin> set bs" using tn(2) Cons by simp
      have "dseg (unlink h t) (Some n) (next_t (h n)) bs None = dseg h (Some n) (next_t (h n)) bs None"
      proof (rule dseg_frame)
        fix z assume z: "z \<in> set bs"
        then have "z \<noteq> n" "prev_t (h t) \<noteq> Some z" using nbs pvn Cons by auto
        then show "next_t (unlink h t z) = next_t (h z) \<and> prev_t (unlink h t z) = prev_t (h z)"
          using nx by (simp add: unlink_def)
      qed
      moreover have "next_t (unlink h t n) = next_t (h n)" "prev_t (unlink h t n) = pv"
        using pvn [of n] Cons nx pt by (simp_all add: unlink_def)
      ultimately show ?thesis using nb nx Cons by simp
    qed
    then show ?thesis using True p by simp
  next
    case False
    have p: "p = Some x" and px: "prev_t (h x) = pv"
      and rest: "dseg h (Some x) (next_t (h x)) xs None"
      using Cons.prems(1) by auto
    have t: "t \<in> set xs" and xn: "x \<notin> set xs" and d: "distinct xs"
      using Cons.prems(2,3) False by auto
    from Cons.IH [OF rest t d] xn
    have IH: "dseg (unlink h t) (Some x) (if next_t (h x) = Some t then next_t (h t) else next_t (h x))
                (remove1 t xs) None" by simp
    have "next_t (h t) \<noteq> Some x" using dseg_next [OF rest t] xn by auto
    then have pv': "prev_t (unlink h t x) = pv" using px by (simp add: unlink_def)
    have nx': "next_t (unlink h t x) = (if next_t (h x) = Some t then next_t (h t) else next_t (h x))"
    proof (cases "next_t (h x) = Some t")
      case True
      then have "prev_t (h t) = Some x" using rest t by (cases xs) auto
      then show ?thesis using True by (simp add: unlink_def)
    next
      case False
      obtain z zs where xs: "xs = z # zs" using t by (cases xs) auto
      then have "z \<noteq> t" using rest False by auto
      then have "t \<in> set zs" using t xs by simp
      moreover have "dseg h (Some z) (next_t (h z)) zs None" using rest xs by simp
      ultimately have "prev_t (h t) = Some z \<or> (\<exists>y\<in>set zs. prev_t (h t) = Some y)"
        using dseg_prev by blast
      then have "prev_t (h t) \<noteq> Some x" using xn xs by auto
      then show ?thesis using False by (simp add: unlink_def)
    qed
    show ?thesis using False p pv' nx' IH by simp
  qed
qed


lemma dseg_last_prev:
  "dseg h pv p xs q \<Longrightarrow> xs \<noteq> [] \<Longrightarrow>
     prev_t (h (last xs)) = (if butlast xs = [] then pv else Some (last (butlast xs)))"
proof (induction xs arbitrary: pv p)
  case Nil
  then show ?case by simp
next
  case (Cons x xs)
  then show ?case by (cases xs) auto
qed

lemma remove1_last: "distinct xs \<Longrightarrow> xs \<noteq> [] \<Longrightarrow> remove1 (last xs) xs = butlast xs"
  by (induction xs) auto

lemma last_remove1: "t \<noteq> last xs \<Longrightarrow> t \<in> set xs \<Longrightarrow>
    remove1 t xs \<noteq> [] \<and> last (remove1 t xs) = last xs"
  by (induction xs) (auto split: if_splits)

lemma dlist_remove:
  assumes "dlist h hp tp sz xs" "t \<in> set xs"
  shows "dlist (unlink h t) (if hp = Some t then next_t (h t) else hp)
           (if tp = Some t then prev_t (h t) else tp) (sz - 1) (remove1 t xs)"
proof -
  have seg: "dseg h None hp xs None" and tp: "tp = lastOpt xs" and sz: "sz = int (length xs)"
    using assms(1) by (auto simp: dlist_def)
  have d: "distinct xs" using seg dseg_chain chain_distinct by blast
  have ne: "xs \<noteq> []" using assms(2) by auto
  have 1: "dseg (unlink h t) None (if hp = Some t then next_t (h t) else hp) (remove1 t xs) None"
    using dseg_remove [OF seg assms(2) d] by simp
  have 2: "(if tp = Some t then prev_t (h t) else tp) = lastOpt (remove1 t xs)"
  proof (cases "t = last xs")
    case True
    then show ?thesis
      using tp ne d dseg_last_prev [OF seg ne] remove1_last [OF d ne]
      by (simp add: lastOpt_def)
  next
    case False
    then show ?thesis using tp ne last_remove1 [OF False assms(2)] by (simp add: lastOpt_def)
  qed
  have 3: "sz - 1 = int (length (remove1 t xs))"
    using sz assms(2) ne by (simp add: length_remove1 of_nat_diff Suc_leI)
  show ?thesis using 1 2 3 by (simp add: dlist_def)
qed

lemma dlist_other:
  assumes "dlist h hp tp sz ys" "dlist h hp' tp' sz' xs" "t \<in> set xs" "set xs \<inter> set ys = {}"
  shows "dlist (unlink h t) hp tp sz ys"
proof -
  have seg: "dseg h None hp' xs None" using assms(2) by (simp add: dlist_def)
  have "dseg (unlink h t) None hp ys None = dseg h None hp ys None"
  proof (rule dseg_frame)
    fix z assume "z \<in> set ys"
    then have "z \<notin> set xs" using assms(4) by auto
    then have "next_t (h t) \<noteq> Some z" "prev_t (h t) \<noteq> Some z"
      using dseg_next [OF seg assms(3)] dseg_prev [OF seg assms(3)] by auto
    then show "next_t (unlink h t z) = next_t (h z) \<and> prev_t (unlink h t z) = prev_t (h z)"
      by (simp add: unlink_def)
  qed
  then show ?thesis using assms(1) by (simp add: dlist_def)
qed

lemma dlist_chain: "dlist h hp tp sz xs \<Longrightarrow> chain h hp xs None"
  by (auto simp: dlist_def dest: dseg_chain)

definition linked :: "qref \<Rightarrow> world \<Rightarrow> ref list \<Rightarrow> ref list \<Rightarrow> ref list \<Rightarrow> bool" where
  "linked self w ps pend ds =
     (dlist (tasks w) (processingHead (queues w self)) (processingTail (queues w self))
        (processingSize (queues w self)) ps
      \<and> dlist (tasks w) (pendingHead (queues w self)) (pendingTail (queues w self))
        (pendingSize (queues w self)) pend
      \<and> dlist (tasks w) (delayedHead (queues w self)) (delayedTail (queues w self))
        (delayedSize (queues w self)) ds
      \<and> distinct (ps @ pend @ ds))"

lemma linked_removeFromProcessing:
  assumes "linked self w ps pend ds" "t \<in> set ps"
  shows "linked self (removeFromProcessing self t w) (remove1 t ps) pend ds"
proof -
  have a: "dlist (tasks w) (processingHead (queues w self)) (processingTail (queues w self))
        (processingSize (queues w self)) ps"
    and b: "dlist (tasks w) (pendingHead (queues w self)) (pendingTail (queues w self))
        (pendingSize (queues w self)) pend"
    and c: "dlist (tasks w) (delayedHead (queues w self)) (delayedTail (queues w self))
        (delayedSize (queues w self)) ds"
    and d: "distinct (ps @ pend @ ds)"
    using assms(1) by (auto simp: linked_def)
  have i: "set ps \<inter> set pend = {}" "set ps \<inter> set ds = {}" using d by auto
  have sub: "set (remove1 t ps) \<subseteq> set ps" by (rule set_remove1_subset)
  have d': "distinct (remove1 t ps @ pend @ ds)"
    using d sub by (auto simp: distinct_remove1)
  show ?thesis
    using dlist_remove [OF a assms(2)] dlist_other [OF b a assms(2) i(1)]
      dlist_other [OF c a assms(2) i(2)] d'
    by (simp add: linked_def removeFromProcessing_queue tasks_finish)
qed


lemma linked_removeFromPending:
  assumes "linked self w ps pend ds" "t \<in> set pend"
  shows "linked self (removeFromPending self t w) ps (remove1 t pend) ds"
proof -
  have a: "dlist (tasks w) (processingHead (queues w self)) (processingTail (queues w self))
        (processingSize (queues w self)) ps"
    and b: "dlist (tasks w) (pendingHead (queues w self)) (pendingTail (queues w self))
        (pendingSize (queues w self)) pend"
    and c: "dlist (tasks w) (delayedHead (queues w self)) (delayedTail (queues w self))
        (delayedSize (queues w self)) ds"
    and d: "distinct (ps @ pend @ ds)"
    using assms(1) by (auto simp: linked_def)
  have i: "set pend \<inter> set ps = {}" "set pend \<inter> set ds = {}" using d by auto
  have sub: "set (remove1 t pend) \<subseteq> set pend" by (rule set_remove1_subset)
  have d': "distinct (ps @ remove1 t pend @ ds)"
    using d sub by (auto simp: distinct_remove1)
  show ?thesis
    using dlist_remove [OF b assms(2)] dlist_other [OF a b assms(2) i(1)]
      dlist_other [OF c b assms(2) i(2)] d'
    by (simp add: linked_def removeFromPending_queue tasks_finish)
qed

lemma linked_removeFromDelayed:
  assumes "linked self w ps pend ds" "t \<in> set ds"
  shows "linked self (removeFromDelayed self t w) ps pend (remove1 t ds)"
proof -
  have a: "dlist (tasks w) (processingHead (queues w self)) (processingTail (queues w self))
        (processingSize (queues w self)) ps"
    and b: "dlist (tasks w) (pendingHead (queues w self)) (pendingTail (queues w self))
        (pendingSize (queues w self)) pend"
    and c: "dlist (tasks w) (delayedHead (queues w self)) (delayedTail (queues w self))
        (delayedSize (queues w self)) ds"
    and d: "distinct (ps @ pend @ ds)"
    using assms(1) by (auto simp: linked_def)
  have i: "set ds \<inter> set ps = {}" "set ds \<inter> set pend = {}" using d by auto
  have sub: "set (remove1 t ds) \<subseteq> set ds" by (rule set_remove1_subset)
  have d': "distinct (ps @ pend @ remove1 t ds)"
    using d sub by (auto simp: distinct_remove1)
  show ?thesis
    using dlist_remove [OF c assms(2)] dlist_other [OF a c assms(2) i(1)]
      dlist_other [OF b c assms(2) i(2)] d'
    by (simp add: linked_def removeFromDelayed_queue tasks_finish)
qed

lemma linked_find:
  assumes "linked self w ps pend ds"
  shows "findTask (tasks w) (processingHead (queues w self)) t = Some (t \<in> set ps)"
    and "findTask (tasks w) (pendingHead (queues w self)) t = Some (t \<in> set pend)"
    and "findTask (tasks w) (delayedHead (queues w self)) t = Some (t \<in> set ds)"
  using assms by (auto simp: linked_def intro!: findTask_chain dlist_chain)

text \<open>Unfolding rules for evaluating the operations on concrete stores.\<close>

lemmas queueTask_eval = queueTask_def requestFlush_def cancelMicroTaskRequestFlushTask_def
  mergeOptions_def defaultQueueTaskOptions_def Task_new_def Task_reuse_def
  addToDelayed_def addToPending_def addToProcessing_def Let_def

lemmas example_eval = boot_def TaskQueue_new_def noTask_def advance_def stored_def

lemmas list_eval = processingList_def pendingList_def delayedList_def listAt_def lastOpt_def
  nodes_def due_def

section \<open>Validation of queueTask (C5)\<close>

text \<open>
  C5. \<open>queueTask\<close> throws one of its three argument errors exactly when the merged options
  have preempt with a delay greater than zero, or preempt with persistent, or persistent
  on the microtask tier (priority 0); the store it leaves behind when it throws one of
  them is the store it was called in, so no list, size counter, pool or flush-request
  state has changed.
\<close>

theorem queueTask_validation:
  "(\<exists>e w'. argumentError e \<and> queueTask cb opts self w = Some (Thrown e w'))
      = invalidArguments opts self w
   \<and> (\<forall>e w'. argumentError e \<longrightarrow> queueTask cb opts self w = Some (Thrown e w') \<longrightarrow> w' = w)"
proof (cases "invalidArguments opts self w")
  case True
  then obtain e where e: "argumentError e" "queueTask cb opts self w = Some (Thrown e w)"
    using queueTask_invalid by blast
  then show ?thesis using True by auto
next
  case False
  then have "\<And>e w'. queueTask cb opts self w = Some (Thrown e w') \<Longrightarrow> \<not> argumentError e"
    using queueTask_valid_Thrown [of opts self w cb] by (auto simp: argumentError_def)
  then show ?thesis using False by blast
qed

theorem queueTask_validation_witness:
  "\<exists>e. argumentError e \<and> queueTask (User 0) [Persistent True] 0 boot = Some (Thrown e boot)"
proof -
  have "invalidArguments [Persistent True] 0 boot"
    by (simp add: invalidArguments_def mergeOptions_def defaultQueueTaskOptions_def
        boot_def TaskQueue_new_def)
  then show ?thesis
    using queueTask_validation [of "User 0" "[Persistent True]" 0 boot] by blast
qed

section \<open>Promotion of delayed tasks (C4)\<close>

text \<open>Three delayed tasks queued at time 0 on the macrotask queue with delays 5, 100 and 7,
  seen at time 10: the third is due but sits behind the second, which is not.\<close>

definition delayedExample :: world where
  "delayedExample =
     advance 10 (stored
       (seq (queueTask (User 0) [Delay 5] 2 boot)
         (\<lambda>_ w. seq (queueTask (User 0) [Delay 100] 2 w)
         (\<lambda>_ w. queueTask (User 0) [Delay 7] 2 w))))"

lemma moveDelayed_eval0:
  assumes "delayedHead (queues w self) = Some d" "queueTime (tasks w d) \<le> now w"
    "dueLoop (tasks w) (now w) d (next_t (tasks w d)) 1 = Some (dTail, nxt, count)"
    "processingSize (queues w self) = 0"
  shows "\<exists>w'. moveDelayedToProcessing self w = Some (Returned () w')
     \<and> tasks w' = tasks w
     \<and> processingSize (queues w' self) = count
     \<and> processingHead (queues w' self) = Some d
     \<and> processingTail (queues w' self) = Some dTail
     \<and> delayedSize (queues w' self) = delayedSize (queues w self) - count
     \<and> delayedHead (queues w' self) = nxt
     \<and> delayedTail (queues w' self) =
          (if delayedSize (queues w self) - count = 0 then None else delayedTail (queues w self))"
  using assms by (simp add: moveDelayedToProcessing_def Let_def)

lemma moveDelayed_eval1:
  assumes "delayedHead (queues w self) = Some d" "queueTime (tasks w d) \<le> now w"
    "dueLoop (tasks w) (now w) d (next_t (tasks w d)) 1 = Some (dTail, nxt, count)"
    "processingSize (queues w self) \<noteq> 0" "processingTail (queues w self) = Some old"
  shows "\<exists>w'. moveDelayedToProcessing self w = Some (Returned () w')
     \<and> tasks w' = (tasks w)(old := (tasks w old)\<lparr>next_t := Some d\<rparr>)
     \<and> processingSize (queues w' self) = processingSize (queues w self) + count
     \<and> processingHead (queues w' self) = processingHead (queues w self)
     \<and> processingTail (queues w' self) = Some dTail
     \<and> delayedSize (queues w' self) = delayedSize (queues w self) - count
     \<and> delayedHead (queues w' self) = nxt
     \<and> delayedTail (queues w' self) =
          (if delayedSize (queues w self) - count = 0 then None else delayedTail (queues w self))"
  using assms by (simp add: moveDelayedToProcessing_def Let_def)

lemma moveDelayed_notdue:
  assumes "delayedHead (queues w self) = Some d" "\<not> queueTime (tasks w d) \<le> now w"
  shows "moveDelayedToProcessing self w = Some (Returned () w)"
  using assms by (simp add: moveDelayedToProcessing_def Let_def)



section \<open>The shape of the three lists (C10)\<close>

text \<open>
  The shape that C10 states for a list: following \<open>next\<close> from the head visits exactly
  \<open>size\<close> tasks and then ends, and the cached tail is the last of them (so head and tail
  are undefined exactly when the size is 0).
\<close>

definition listShape :: "(ref \<Rightarrow> Task) \<Rightarrow> ref option \<Rightarrow> ref option \<Rightarrow> int \<Rightarrow> bool" where
  "listShape h hp tp sz =
     (0 \<le> sz \<and> (case walk h hp (nat sz) of Some (xs, None) \<Rightarrow> tp = lastOpt xs | _ \<Rightarrow> False))"

definition shapeInvariant :: "qref \<Rightarrow> world \<Rightarrow> bool" where
  "shapeInvariant self w =
     (let q = queues w self; h = tasks w in
      listShape h (processingHead q) (processingTail q) (processingSize q)
      \<and> listShape h (pendingHead q) (pendingTail q) (pendingSize q)
      \<and> listShape h (delayedHead q) (delayedTail q) (delayedSize q))"

text \<open>
  C10. The shape is not preserved by the migration of \<open>flush\<close>: the queue of
  \<open>delayedExample\<close> has the shape (three delayed tasks, the first one due), and after
  \<open>moveDelayedToProcessing\<close> its processing list has size 1 while the \<open>next\<close> links from the
  processing head still lead on into the delayed list, because the last promoted task
  keeps its \<open>next\<close> link.
\<close>

theorem moveDelayedToProcessing_breaks_shape:
  "shapeInvariant 2 delayedExample
   \<and> (\<exists>w'. moveDelayedToProcessing 2 delayedExample = Some (Returned () w')
         \<and> processingSize (queues w' 2) = 1
         \<and> walk (tasks w') (processingHead (queues w' 2)) 2 = Some ([0, 1], Some 2)
         \<and> \<not> shapeInvariant 2 w')"
proof -
  have inv: "shapeInvariant 2 delayedExample"
    by (simp add: shapeInvariant_def listShape_def delayedExample_def queueTask_eval example_eval
        lastOpt_def eval_nat_numeral)
  have dh: "delayedHead (queues delayedExample 2) = Some 0"
    and due0: "queueTime (tasks delayedExample 0) \<le> now delayedExample"
    and p0: "processingSize (queues delayedExample 2) = 0"
    and loop: "dueLoop (tasks delayedExample) (now delayedExample) 0
                 (next_t (tasks delayedExample 0)) 1 = Some (0, Some 1, 1)"
    and nx: "next_t (tasks delayedExample 0) = Some 1" "next_t (tasks delayedExample 1) = Some 2"
    by (simp_all add: delayedExample_def queueTask_eval example_eval dueLoop.simps)
  from moveDelayed_eval0 [OF dh due0 loop p0] obtain w' where
    w': "moveDelayedToProcessing 2 delayedExample = Some (Returned () w')"
      "tasks w' = tasks delayedExample"
      "processingSize (queues w' 2) = 1"
      "processingHead (queues w' 2) = Some 0"
      "processingTail (queues w' 2) = Some 0"
    by blast
  have wk: "walk (tasks w') (processingHead (queues w' 2)) 2 = Some ([0, 1], Some 2)"
    using nx w'(2,4) by (simp add: walk_chain)
  have "\<not> listShape (tasks w') (processingHead (queues w' 2)) (processingTail (queues w' 2))
           (processingSize (queues w' 2))"
    using nx w'(2,3,4,5) by (simp add: listShape_def walk_chain split: option.splits prod.splits)
  then have "\<not> shapeInvariant 2 w'" by (simp add: shapeInvariant_def Let_def)
  with inv w' wk show ?thesis by blast
qed

section \<open>yield (C2)\<close>

text \<open>The macrotask queue after a flush has run one asynchronous task that does not
  suspend the queue: the task (here task 0) has left the processing list and is still
  running, the three lists are empty and \<open>pendingAsyncCount\<close> is 1.\<close>

definition asyncPending :: world where
  "asyncPending =
     boot\<lparr>tasks := (tasks boot)(0 := noTask\<lparr>taskQueue := 2, callback := User 1, status := Running\<rparr>),
          nextTask := 1,
          queues := (queues boot)(2 := (queues boot 2)
             \<lparr>pendingAsyncCount := 1, flushRequested := True, flushRequestor := 1\<rparr>)\<rparr>"

text \<open>
  C2. In that state the queue still has finite work (\<open>hasNoMoreFiniteWork\<close> is false, an
  asynchronous task is in flight), yet \<open>yield\<close> completes at once, without a waiter:
  \<open>isEmpty\<close> looks at the three sizes only.
\<close>

theorem yield_ignores_pending_async:
  "pendingAsyncCount (queues asyncPending 2) = 1
   \<and> status (tasks asyncPending 0) = Running
   \<and> hasNoMoreFiniteWork 2 asyncPending = Some False
   \<and> yield 2 asyncPending = (Done, asyncPending)"
  by (simp add: asyncPending_def boot_def TaskQueue_new_def noTask_def
      hasNoMoreFiniteWork_def yield_def isEmpty_def)

section \<open>Placement of a preempt task (C1)\<close>

text \<open>The macrotask queue after a preempt task (task 0) and then a default task (task 1)
  were queued, and the store after a second preempt task (task 2) is queued.\<close>

definition preemptExample :: world where
  "preemptExample =
     stored (seq (queueTask (User 0) [Preempt True] 2 boot)
               (\<lambda>_ w. queueTask (User 0) [] 2 w))"

definition preemptQueued :: world where
  "preemptQueued = stored (queueTask (User 0) [Preempt True] 2 preemptExample)"




section \<open>FIFO within a tier (C7)\<close>

text \<open>The macrotask queue after one default task with an asynchronous callback was queued
  (task 0), after a second one was queued (task 1), and after the pending list was spliced
  into the processing list.\<close>

definition fifoExample :: world where
  "fifoExample = stored (queueTask (User 1) [] 2 boot)"

definition fifoQueued :: world where
  "fifoQueued = stored (queueTask (User 1) [] 2 fifoExample)"

definition fifoSpliced :: world where
  "fifoSpliced = stored (Some (movePendingToProcessing 2 fifoQueued))"



section \<open>remove (C6)\<close>

text \<open>The store of \<open>preemptExample\<close> after its preempt task 0 was removed once.\<close>

definition removedExample :: world where
  "removedExample = stored (remove 2 0 preemptExample)"





end
